theory Spec2Isabelle
  imports Complex_Main "HOL-Library.Log_Nat"
begin

section \<open>Strings and numbers of the JavaScript source\<close>

text \<open>
  Seconds, megabytes and timestamps are JavaScript numbers in the source, that is IEEE 754
  doubles. Every finite double is a rational, so the values are rationals here, and the
  additions and subtractions of the planner's loop, whose number of rounds depends on
  them, round their exact result to the nearest double (ties to even, 53 significant
  bits; overflow and subnormal numbers are out of reach of a duration in seconds and are
  not modelled). Byte counts, milliseconds and identifiers are naturals.
\<close>

definition pow2 :: "int \<Rightarrow> rat" where
  "pow2 e = (if 0 \<le> e then 2 ^ nat e else 1 / 2 ^ nat (- e))"

text \<open>For \<open>x > 0\<close>, the exponent \<open>k\<close> with \<open>2^k \<le> x < 2^(k+1)\<close>.\<close>

definition floor_log2 :: "rat \<Rightarrow> int" where
  "floor_log2 x = (if 1 \<le> x then bitlen \<lfloor>x\<rfloor> - 1 else - bitlen (\<lceil>1 / x\<rceil> - 1))"

definition round_half_even :: "rat \<Rightarrow> int" where
  "round_half_even x =
     (let f = \<lfloor>x\<rfloor>; r = x - of_int f
      in if r < 1 / 2 then f else if 1 / 2 < r then f + 1 else if even f then f else f + 1)"

text \<open>The double nearest to \<open>x\<close>: a significand of 53 bits, scaled by a power of two.\<close>

definition round_double :: "rat \<Rightarrow> rat" where
  "round_double x =
     (if x = 0 then 0
      else (let a = \<bar>x\<bar>; e = floor_log2 a - 52; m = round_half_even (a / pow2 e)
            in sgn x * of_int m * pow2 e))"

text \<open>\<^verbatim>\<open>a + b\<close> and \<^verbatim>\<open>a - b\<close> on doubles.\<close>

definition fadd :: "rat \<Rightarrow> rat \<Rightarrow> rat" where
  "fadd a b = round_double (a + b)"

definition fsub :: "rat \<Rightarrow> rat \<Rightarrow> rat" where
  "fsub a b = round_double (a - b)"

fun digit_char :: "nat \<Rightarrow> char" where
  "digit_char n = char_of (48 + n)"

text \<open>Decimal rendering of a non-negative integer inside a template literal.\<close>

fun show_nat :: "nat \<Rightarrow> string" where
  "show_nat n = (if n < 10 then [digit_char n] else show_nat (n div 10) @ [digit_char (n mod 10)])"

declare show_nat.simps [simp del]

fun starts_with :: "'a list \<Rightarrow> 'a list \<Rightarrow> bool" where
  "starts_with s [] = True"
| "starts_with [] (p # ps) = False"
| "starts_with (c # cs) (p # ps) = (c = p \<and> starts_with cs ps)"

text \<open>\<^verbatim>\<open>String.prototype.includes\<close>: the second string occurs somewhere in the first.\<close>

fun str_includes :: "'a list \<Rightarrow> 'a list \<Rightarrow> bool" where
  "str_includes [] sub = (sub = [])"
| "str_includes (c # cs) sub = (starts_with (c # cs) sub \<or> str_includes cs sub)"

text \<open>
  \<^verbatim>\<open>path.basename(p, path.extname(p))\<close>: the last path component without its extension.
  Both separators are accepted, as the win32 flavour of the library does.
\<close>

definition is_sep :: "char \<Rightarrow> bool" where
  "is_sep c = (c = CHR ''/'' \<or> c = CHR 0x5C)"

definition basename :: "string \<Rightarrow> string" where
  "basename p = rev (takeWhile (\<lambda>c. \<not> is_sep c) (rev p))"

definition extname :: "string \<Rightarrow> string" where
  "extname p =
     (let b = basename p; e = takeWhile (\<lambda>c. c \<noteq> CHR ''.'') (rev b)
      in if CHR ''.'' \<notin> set b \<or> Suc (length e) = length b then [] else CHR ''.'' # rev e)"

definition basename_noext :: "string \<Rightarrow> string" where
  "basename_noext p = (let b = basename p in take (length b - length (extname p)) b)"

section \<open>The outside world\<close>

text \<open>
  A chunk plan entry, as \<^verbatim>\<open>splitIntoChunks\<close> pushes it. \<open>sizeMB\<close> is kept as the
  number that the source formats with two decimals.
\<close>

record chunk =
  index :: nat
  path :: string
  startTime :: rat
  endTime :: rat
  duration :: rat
  sizeMB :: rat
  filename :: string

text \<open>
  A segment of a verbose transcription: its two timestamps and its text. The object
  spread of the merger copies every other field of the service's answer unchanged.
\<close>

record segment =
  seg_start :: rat
  seg_end :: rat
  seg_text :: "nat list"

text \<open>
  What \<^verbatim>\<open>transcribeSingleFile\<close> returns, and also the shape of a merged transcript.
  Transcript text is a sequence of UTF-16 code units. A missing language is the empty
  string (both are falsy in the source).
\<close>

record transcription =
  t_text :: "nat list"
  language :: string
  t_duration :: rat
  segments :: "segment list"

record chunk_result =
  chunk :: chunk
  transcription :: transcription

text \<open>The error object the speech-to-text client library throws.\<close>

record api_error =
  status :: "nat option"
  code :: "string option"
  message :: string

text \<open>
  Everything the pipeline asks of its collaborators. A \<open>string +\<close> result carries the
  message of the error thrown on the left. \<open>api n p\<close> is the outcome of the \<open>n\<close>-th
  request sent to the service (counted from 0), made for the file \<open>p\<close>; it covers the
  whole \<^verbatim>\<open>try\<close> block of \<^verbatim>\<open>transcribeSingleFile\<close>, file access included. The last five
  fields are the outcomes of the steps of \<^verbatim>\<open>processMeeting\<close> after the transcription: the
  path of the saved transcript, the path of the saved summary, and the message of the
  error where a step throws.
\<close>

record env =
  client_configured :: bool
  full_path :: "string \<Rightarrow> string"
  now :: nat
  CHUNK_DIR :: string
  stat_size :: "string \<Rightarrow> string + nat"
  ffprobe :: "string \<Rightarrow> string + rat \<times> nat"
  ffmpeg_convert :: "string \<Rightarrow> string \<Rightarrow> string option"
  mkdir_chunks :: "string option"
  ffmpeg_extract :: "string \<Rightarrow> rat \<Rightarrow> rat \<Rightarrow> string + nat"
  api :: "nat \<Rightarrow> string \<Rightarrow> api_error + transcription"
  saveTranscript_result :: "string + string"
  analyzeMeeting_error :: "string option"
  saveSummary_result :: "string + string"
  metadata_error :: "string option"
  buildSearchIndex_error :: "string option"

text \<open>
  The observable effects, in order: every invocation of \<^verbatim>\<open>transcribeSingleFile\<close>, every
  back-off sleep (milliseconds), every run of the splitter (file, total duration, chunk
  duration), the conversion, and the clean-ups.
\<close>

datatype event =
  Transcribe string
| Sleep nat
| Split string rat rat
| Convert string string
| Cleanup "string list"
| Unlink string

record state =
  calls :: nat
  trace :: "event list"

definition emit :: "event \<Rightarrow> state \<Rightarrow> state" where
  "emit ev st = st\<lparr>trace := trace st @ [ev]\<rparr>"

section \<open>Chunk planner (audioChunker.js)\<close>

definition CHUNK_DURATION_SECONDS :: rat where
  "CHUNK_DURATION_SECONDS = 600"

definition CHUNK_OVERLAP_SECONDS :: rat where
  "CHUNK_OVERLAP_SECONDS = 2"

definition TARGET_SIZE_MB :: rat where
  "TARGET_SIZE_MB = 24"

text \<open>
  The \<^verbatim>\<open>while (startTime < durationSeconds)\<close> loop of \<^verbatim>\<open>splitIntoChunks\<close>, with the double
  arithmetic of \<^verbatim>\<open>startTime + chunkDuration\<close>, \<^verbatim>\<open>endTime - startTime\<close>,
  \<^verbatim>\<open>startTime - CHUNK_OVERLAP_SECONDS\<close>, \<^verbatim>\<open>actualDuration + ...\<close> and
  \<^verbatim>\<open>startTime += chunkDuration\<close>. The source has no guard on the chunk duration, so the
  loop may never end (a chunk duration that is not positive, or one too small to move
  the start time); not returning is the value \<open>None\<close>. A failed extraction leaves the loop
  with the error.
\<close>

partial_function (option) splitLoop ::
  "env \<Rightarrow> string \<Rightarrow> rat \<Rightarrow> rat \<Rightarrow> chunk list \<Rightarrow> rat \<Rightarrow> (string + chunk list) option"
where
  "splitLoop e baseFilename durationSeconds chunkDuration chunks start =
     (if start < durationSeconds then
        (let chunkIndex = length chunks;
             endT = min (fadd start chunkDuration) durationSeconds;
             actualDuration = fsub endT start;
             seekStart = (if chunkIndex > 0 then max 0 (fsub start CHUNK_OVERLAP_SECONDS) else start);
             seekDuration = fadd actualDuration (if chunkIndex > 0 then CHUNK_OVERLAP_SECONDS else 0);
             chunkFilename = baseFilename @ ''_chunk'' @ show_nat chunkIndex @ ''.wav'';
             chunkPath = CHUNK_DIR e @ ''/'' @ chunkFilename
         in case ffmpeg_extract e chunkPath seekStart seekDuration of
              Inl msg \<Rightarrow> Some (Inl msg)
            | Inr bytes \<Rightarrow>
                splitLoop e baseFilename durationSeconds chunkDuration
                  (chunks @ [\<lparr>index = chunkIndex, path = chunkPath, startTime = start,
                              endTime = endT, duration = actualDuration,
                              sizeMB = of_nat bytes / (1024 * 1024),
                              filename = chunkFilename\<rparr>])
                  (fadd start chunkDuration))
      else Some (Inr chunks))"

declare splitLoop.simps [code]

definition splitIntoChunks ::
  "env \<Rightarrow> string \<Rightarrow> rat \<Rightarrow> rat \<Rightarrow> state \<Rightarrow> ((string + chunk list) \<times> state) option"
where
  "splitIntoChunks e wavPath durationSeconds chunkDuration st =
     (let st1 = emit (Split wavPath durationSeconds chunkDuration) st
      in case mkdir_chunks e of
           Some msg \<Rightarrow> Some (Inl (''Failed to split audio: '' @ msg), st1)
         | None \<Rightarrow>
             (case splitLoop e (basename_noext wavPath) durationSeconds chunkDuration [] 0 of
                None \<Rightarrow> None
              | Some (Inl msg) \<Rightarrow> Some (Inl (''Failed to split audio: '' @ msg), st1)
              | Some (Inr chunks) \<Rightarrow> Some (Inr chunks, st1)))"

text \<open>
  The length of the audio that the file of a chunk holds (\<^verbatim>\<open>seekDuration\<close>): its logical
  duration, plus the overlap for every chunk after the first.
\<close>

definition file_duration :: "chunk \<Rightarrow> rat" where
  "file_duration c = duration c + (if index c > 0 then CHUNK_OVERLAP_SECONDS else 0)"

text \<open>
  Logical windows that follow one another from \<open>t\<close>: every window is non-empty and
  starts where the one before it ends.
\<close>

fun contiguous_from :: "rat \<Rightarrow> chunk list \<Rightarrow> bool" where
  "contiguous_from t [] = True"
| "contiguous_from t (c # cs) = (startTime c = t \<and> t < endTime c \<and> contiguous_from (endTime c) cs)"


section \<open>Transcript merger (transcription.js)\<close>

text \<open>
  The code units that \<^verbatim>\<open>\s\<close> matches and that \<^verbatim>\<open>trim\<close> strips: the white space and
  line terminator code points of ECMAScript.
\<close>

definition is_ws :: "nat \<Rightarrow> bool" where
  "is_ws c = (c \<in> {9, 10, 11, 12, 13, 32, 160, 5760, 8232, 8233, 8239, 8287, 12288, 65279}
              \<or> (8192 \<le> c \<and> c \<le> 8202))"

definition SPACE :: nat where
  "SPACE = 32"

definition trim :: "nat list \<Rightarrow> nat list" where
  "trim s = rev (dropWhile is_ws (rev (dropWhile is_ws s)))"

text \<open>\<^verbatim>\<open>replace(/\s+/g, ' ')\<close>: every maximal run of white space becomes one space.\<close>

function replace_ws :: "nat list \<Rightarrow> nat list" where
  "replace_ws [] = []"
| "replace_ws (c # cs) =
     (if is_ws c then SPACE # replace_ws (dropWhile is_ws cs) else c # replace_ws cs)"
  by pat_completeness auto
termination
  by (relation "measure length") (auto simp: length_dropWhile_le less_Suc_eq_le)

definition adjust :: "rat \<Rightarrow> segment \<Rightarrow> segment" where
  "adjust t seg = seg\<lparr>seg_start := seg_start seg + t, seg_end := seg_end seg + t\<rparr>"

text \<open>The \<^verbatim>\<open>for (const { chunk, transcription } of chunkResults)\<close> loop with its three
  accumulators \<^verbatim>\<open>fullText\<close>, \<^verbatim>\<open>allSegments\<close> and \<^verbatim>\<open>totalDuration\<close>.\<close>

fun mergeLoop ::
  "chunk_result list \<Rightarrow> nat list \<times> segment list \<times> rat \<Rightarrow> nat list \<times> segment list \<times> rat"
where
  "mergeLoop [] acc = acc"
| "mergeLoop (r # rs) (fullText, allSegments, totalDuration) =
     mergeLoop rs
       (fullText @ t_text (transcription r) @ [SPACE],
        (if segments (transcription r) \<noteq> []
         then allSegments @ map (adjust (startTime (chunk r))) (segments (transcription r))
         else allSegments),
        max totalDuration (endTime (chunk r)))"

definition mergeTranscripts :: "chunk_result list \<Rightarrow> transcription" where
  "mergeTranscripts chunkResults =
     (let lang = (case chunkResults of
                    [] \<Rightarrow> ''en''
                  | r # _ \<Rightarrow> if language (transcription r) = [] then ''en''
                             else language (transcription r));
          (fullText, allSegments, totalDuration) = mergeLoop chunkResults ([], [], 0)
      in \<lparr>t_text = replace_ws (trim fullText), language = lang,
          t_duration = totalDuration, segments = allSegments\<rparr>)"

section \<open>Speech-to-text client (transcription.js)\<close>

definition SIZE_THRESHOLD_MB :: rat where
  "SIZE_THRESHOLD_MB = 24"

definition PAYLOAD_TOO_LARGE :: string where
  "PAYLOAD_TOO_LARGE = ''PAYLOAD_TOO_LARGE''"

definition RECHUNK_NEEDED :: string where
  "RECHUNK_NEEDED = ''RECHUNK_NEEDED''"

definition NOT_CONFIGURED :: string where
  "NOT_CONFIGURED = ''OpenAI API key not configured''"

definition RATE_LIMIT_MESSAGE :: string where
  "RATE_LIMIT_MESSAGE =
     ''OpenAI API rate limit exceeded. Please wait a few minutes and try '' @ [CHR 0x22] @
     ''Reprocess Meeting'' @ [CHR 0x22]"

definition INVALID_KEY_MESSAGE :: string where
  "INVALID_KEY_MESSAGE = ''OpenAI API key is invalid or expired. Please check your .env file''"

definition INSUFFICIENT_CREDITS_MESSAGE :: string where
  "INSUFFICIENT_CREDITS_MESSAGE =
     ''OpenAI account has insufficient credits. Please add credits at platform.openai.com/account/billing''"

definition QUOTA_MESSAGE :: string where
  "QUOTA_MESSAGE =
     ''OpenAI API quota exceeded. Check your usage at platform.openai.com/account/usage''"

definition BILLING_MESSAGE :: string where
  "BILLING_MESSAGE =
     ''OpenAI billing issue detected. Please check platform.openai.com/account/billing''"

definition checkAPIQuotaError :: "api_error \<Rightarrow> string option" where
  "checkAPIQuotaError err =
     (if status err = Some 429 then Some RATE_LIMIT_MESSAGE
      else if status err = Some 401 then Some INVALID_KEY_MESSAGE
      else if status err = Some 402 \<or> code err = Some ''insufficient_quota''
        then Some INSUFFICIENT_CREDITS_MESSAGE
      else if message err \<noteq> [] \<and> str_includes (message err) ''quota'' then Some QUOTA_MESSAGE
      else if message err \<noteq> [] \<and> str_includes (message err) ''billing'' then Some BILLING_MESSAGE
      else None)"

text \<open>
  The \<^verbatim>\<open>catch\<close> block of \<^verbatim>\<open>transcribeSingleFile\<close>: the message of the error it throws for
  an error of the client library.
\<close>

definition thrown_message :: "api_error \<Rightarrow> string" where
  "thrown_message err =
     (case checkAPIQuotaError err of
        Some quotaError \<Rightarrow> quotaError
      | None \<Rightarrow>
          if status err = Some 413 \<or> str_includes (message err) ''413''
          then PAYLOAD_TOO_LARGE
          else ''Failed to transcribe audio: '' @ message err)"

text \<open>
  One call of \<^verbatim>\<open>transcribeSingleFile\<close>: the message of the error it throws, or the
  transcription. Without a client it throws before sending anything.
\<close>

definition transcribeSingleFile ::
  "env \<Rightarrow> string \<Rightarrow> state \<Rightarrow> (string + transcription) \<times> state"
where
  "transcribeSingleFile e audioPath st =
     (let st0 = emit (Transcribe audioPath) st
      in if \<not> client_configured e then (Inl NOT_CONFIGURED, st0)
         else
           (let st1 = st0\<lparr>calls := Suc (calls st0)\<rparr>
            in case api e (calls st) (full_path e audioPath) of
                 Inr t \<Rightarrow> (Inr t, st1)
               | Inl err \<Rightarrow> (Inl (thrown_message err), st1)))"

section \<open>Chunk transcription driver (transcription.js)\<close>

definition MAX_RETRIES :: nat where
  "MAX_RETRIES = 5"

definition exhausted_message :: "nat \<Rightarrow> string" where
  "exhausted_message i =
     ''Failed to transcribe chunk '' @ show_nat i @ '' after '' @ show_nat MAX_RETRIES @
     '' retries. This may be due to network instability or OpenAI API issues. Try again later or check your internet connection.''"

datatype retry_outcome = Retried transcription | RechunkSignal | NotRetried

text \<open>
  The inner \<^verbatim>\<open>for (let attempt = 1; attempt <= MAX_RETRIES; attempt++)\<close> loop, entered at
  \<open>attempt\<close>. \<open>Retried\<close> is leaving it with \<^verbatim>\<open>retried = true\<close>, \<open>RechunkSignal\<close> with
  \<^verbatim>\<open>retryWithSmallerChunks = true\<close>, \<open>NotRetried\<close> with neither.
\<close>

function retryLoop :: "env \<Rightarrow> chunk \<Rightarrow> nat \<Rightarrow> state \<Rightarrow> retry_outcome \<times> state" where
  "retryLoop e c attempt st =
     (if attempt \<le> MAX_RETRIES then
        (let delay = 2 ^ attempt * 2500;
             st1 = emit (Sleep delay) st
         in case transcribeSingleFile e (path c) st1 of
              (Inr t, st2) \<Rightarrow> (Retried t, st2)
            | (Inl msg, st2) \<Rightarrow>
                if msg = PAYLOAD_TOO_LARGE then (RechunkSignal, st2)
                else retryLoop e c (Suc attempt) st2)
      else (NotRetried, st))"
  by pat_completeness auto
termination
  by (relation "measure (\<lambda>(e, c, attempt, st). Suc MAX_RETRIES - attempt)") auto

declare retryLoop.simps [simp del]

text \<open>
  The outer \<^verbatim>\<open>for\<close> loop of \<^verbatim>\<open>transcribeChunks\<close> over the chunks that are left, with the
  results pushed so far, and the \<^verbatim>\<open>throw\<close> that follows it. No progress callback is
  passed on the path from \<^verbatim>\<open>processMeeting\<close>.
\<close>

fun driveLoop ::
  "env \<Rightarrow> chunk list \<Rightarrow> chunk_result list \<Rightarrow> state \<Rightarrow> (string + chunk_result list) \<times> state"
where
  "driveLoop e [] results st = (Inr results, st)"
| "driveLoop e (c # cs) results st =
     (case transcribeSingleFile e (path c) st of
        (Inr t, st1) \<Rightarrow> driveLoop e cs (results @ [\<lparr>chunk = c, transcription = t\<rparr>]) st1
      | (Inl msg, st1) \<Rightarrow>
          if msg = PAYLOAD_TOO_LARGE then (Inl RECHUNK_NEEDED, st1)
          else
            (case retryLoop e c 1 st1 of
               (Retried t, st2) \<Rightarrow>
                 driveLoop e cs (results @ [\<lparr>chunk = c, transcription = t\<rparr>]) st2
             | (RechunkSignal, st2) \<Rightarrow> (Inl RECHUNK_NEEDED, st2)
             | (NotRetried, st2) \<Rightarrow> (Inl (exhausted_message (index c)), st2)))"

definition transcribeChunks ::
  "env \<Rightarrow> chunk list \<Rightarrow> state \<Rightarrow> (string + chunk_result list) \<times> state"
where
  "transcribeChunks e chunks st = driveLoop e chunks [] st"


section \<open>Conversion and planning of a large file (audioChunker.js)\<close>

record processed =
  needsChunking :: bool
  wavPath :: string
  p_duration :: rat
  p_sizeMB :: rat
  chunks :: "chunk list"

definition MB :: "nat \<Rightarrow> rat" where
  "MB bytes = of_nat bytes / (1024 * 1024)"

text \<open>
  \<^verbatim>\<open>processLargeAudio\<close>. \<open>ffprobe e p\<close> gives \<^verbatim>\<open>parseFloat(format.duration) || 0\<close> and
  \<^verbatim>\<open>format.size\<close> of the file \<open>p\<close>.
\<close>

definition processLargeAudio ::
  "env \<Rightarrow> string \<Rightarrow> nat \<Rightarrow> state \<Rightarrow> ((string + processed) \<times> state) option"
where
  "processLargeAudio e audioPath meetingId st =
     (case ffprobe e audioPath of
        Inl msg \<Rightarrow> Some (Inl (''Failed to probe audio file: '' @ msg), st)
      | Inr (sourceDuration, sourceBytes) \<Rightarrow>
          (let fileSizeMB = MB sourceBytes;
               wav = CHUNK_DIR e @ ''/'' @ ''meeting-'' @ show_nat meetingId @ ''-converted.wav''
           in case mkdir_chunks e of
                Some msg \<Rightarrow> Some (Inl msg, st)
              | None \<Rightarrow>
                 (let st1 = emit (Convert audioPath wav) st
                  in case ffmpeg_convert e audioPath wav of
                       Some msg \<Rightarrow> Some (Inl (''FFmpeg conversion failed: '' @ msg), st1)
                     | None \<Rightarrow>
                        (case stat_size e wav of
                           Inl msg \<Rightarrow> Some (Inl msg, st1)
                         | Inr wavBytes \<Rightarrow>
                            (let wavSizeMB = MB wavBytes;
                                 resolved =
                                   (if sourceDuration = 0 then
                                      (case ffprobe e wav of
                                         Inl msg \<Rightarrow> Inl (''Failed to probe audio file: '' @ msg)
                                       | Inr (wavDuration, _) \<Rightarrow>
                                           if wavDuration = 0
                                           then Inl ''Could not determine audio duration from either source or converted file''
                                           else Inr wavDuration)
                                    else Inr sourceDuration)
                             in case resolved of
                                  Inl msg \<Rightarrow> Some (Inl msg, st1)
                                | Inr durationSeconds \<Rightarrow>
                                    if wavSizeMB \<le> TARGET_SIZE_MB then
                                      Some (Inr \<lparr>needsChunking = False, wavPath = wav,
                                                 p_duration = durationSeconds, p_sizeMB = wavSizeMB,
                                                 chunks = []\<rparr>, st1)
                                    else
                                      (let chunkDuration =
                                             (if fileSizeMB \<ge> 50 then 300 else CHUNK_DURATION_SECONDS)
                                       in case splitIntoChunks e wav durationSeconds chunkDuration st1 of
                                            None \<Rightarrow> None
                                          | Some (Inl msg, st2) \<Rightarrow> Some (Inl msg, st2)
                                          | Some (Inr cs, st2) \<Rightarrow>
                                              Some (Inr \<lparr>needsChunking = True, wavPath = wav,
                                                         p_duration = durationSeconds,
                                                         p_sizeMB = wavSizeMB, chunks = cs\<rparr>, st2)))))))"

text \<open>\<^verbatim>\<open>cleanupChunks\<close> swallows every error of its own.\<close>

definition cleanupChunks :: "string list \<Rightarrow> state \<Rightarrow> state" where
  "cleanupChunks chunkPaths st = emit (Cleanup chunkPaths) st"

definition rechunkWithSmallerSize ::
  "env \<Rightarrow> string \<Rightarrow> rat \<Rightarrow> rat \<Rightarrow> state \<Rightarrow> ((string + chunk list) \<times> state) option"
where
  "rechunkWithSmallerSize e wav durationSeconds reducedChunkDuration st =
     splitIntoChunks e wav durationSeconds reducedChunkDuration st"

section \<open>Transcription with automatic chunking (transcription.js)\<close>

text \<open>The tail of \<^verbatim>\<open>transcribeWithRetry\<close> after a successful drive: merge, then clean up.\<close>

definition mergeAndCleanup ::
  "processed \<Rightarrow> chunk list \<Rightarrow> chunk_result list \<Rightarrow> state \<Rightarrow> (string + transcription) \<times> state"
where
  "mergeAndCleanup p cs chunkResults st =
     (let mergedResult = mergeTranscripts chunkResults;
          st1 = cleanupChunks (map path cs) st;
          st2 = emit (Unlink (wavPath p)) st1
      in (Inr mergedResult, st2))"

text \<open>
  The part of \<^verbatim>\<open>transcribeWithRetry\<close> from \<^verbatim>\<open>File requires chunking...\<close> on. It is reached for
  a file above the threshold and by falling through from a direct transcription.
\<close>

definition chunkingPath ::
  "env \<Rightarrow> string \<Rightarrow> nat \<Rightarrow> state \<Rightarrow> ((string + transcription) \<times> state) option"
where
  "chunkingPath e fullAudioPath mid st =
     (case processLargeAudio e fullAudioPath mid st of
        None \<Rightarrow> None
      | Some (Inl msg, st1) \<Rightarrow> Some (Inl msg, st1)
      | Some (Inr p, st1) \<Rightarrow>
          if \<not> needsChunking p then
            (case transcribeSingleFile e (wavPath p) st1 of
               (Inl msg, st2) \<Rightarrow> Some (Inl msg, st2)
             | (Inr t, st2) \<Rightarrow> Some (Inr t, emit (Unlink (wavPath p)) st2))
          else
            (case transcribeChunks e (chunks p) st1 of
               (Inr chunkResults, st2) \<Rightarrow> Some (mergeAndCleanup p (chunks p) chunkResults st2)
             | (Inl msg, st2) \<Rightarrow>
                 if msg = RECHUNK_NEEDED then
                   (let st3 = cleanupChunks (map path (chunks p)) st2
                    in case rechunkWithSmallerSize e (wavPath p) (p_duration p) 300 st3 of
                         None \<Rightarrow> None
                       | Some (Inl msg2, st4) \<Rightarrow> Some (Inl msg2, st4)
                       | Some (Inr smallerChunks, st4) \<Rightarrow>
                           (case transcribeChunks e smallerChunks st4 of
                              (Inl msg3, st5) \<Rightarrow> Some (Inl msg3, st5)
                            | (Inr chunkResults, st5) \<Rightarrow>
                                Some (mergeAndCleanup p smallerChunks chunkResults st5)))
                 else Some (Inl msg, st2)))"

text \<open>
  \<^verbatim>\<open>transcribeWithRetry(audioPath, meetingId)\<close>. \<open>None\<close> for the identifier is \<^verbatim>\<open>null\<close>;
  \<^verbatim>\<open>meetingId || Date.now()\<close> also replaces the identifier 0.
\<close>

definition transcribeWithRetry ::
  "env \<Rightarrow> string \<Rightarrow> nat option \<Rightarrow> state \<Rightarrow> ((string + transcription) \<times> state) option"
where
  "transcribeWithRetry e audioPath meetingId st =
     (if \<not> client_configured e then Some (Inl NOT_CONFIGURED, st)
      else
        (let fullAudioPath = full_path e audioPath;
             mid = (case meetingId of None \<Rightarrow> now e | Some m \<Rightarrow> if m = 0 then now e else m)
         in case stat_size e fullAudioPath of
              Inl msg \<Rightarrow> Some (Inl msg, st)
            | Inr bytes \<Rightarrow>
                if MB bytes \<le> SIZE_THRESHOLD_MB then
                  (case transcribeSingleFile e fullAudioPath st of
                     (Inr t, st1) \<Rightarrow> Some (Inr t, st1)
                   | (Inl msg, st1) \<Rightarrow>
                       if msg \<noteq> PAYLOAD_TOO_LARGE then Some (Inl msg, st1)
                       else chunkingPath e fullAudioPath mid st1)
                else chunkingPath e fullAudioPath mid st))"

section \<open>Meeting processing orchestrator (routes/meetings.js)\<close>

record meeting =
  title :: string
  date :: string
  m_duration :: int
  audio_path :: string
  transcript_path :: "string option"
  summary_path :: "string option"

text \<open>\<^verbatim>\<open>calculateTimeout\<close>, in milliseconds; the argument path is used as it is given.\<close>

definition calculateTimeout :: "env \<Rightarrow> string \<Rightarrow> nat" where
  "calculateTimeout e audioPath =
     (case stat_size e audioPath of
        Inl msg \<Rightarrow> 10 * 60 * 1000
      | Inr bytes \<Rightarrow>
          (let fileSizeMB = MB bytes
           in if fileSizeMB < 10 then 5 * 60 * 1000
              else if fileSizeMB < 30 then 10 * 60 * 1000
              else if fileSizeMB < 50 then 15 * 60 * 1000
              else if fileSizeMB < 80 then 30 * 60 * 1000
              else 45 * 60 * 1000))"

text \<open>
  The meetings table, the promise that \<^verbatim>\<open>withTimeout\<close> returns (\<open>None\<close> while pending, then
  the message of the rejection or the fulfilment), and the rows written by
  \<^verbatim>\<open>updateMeeting.run\<close> for any meeting, oldest first.
\<close>

record pm_state =
  db :: "nat \<Rightarrow> meeting option"
  settled :: "(string + unit) option"
  writes :: "meeting list"

text \<open>\<^verbatim>\<open>UPDATE meetings SET ... WHERE id = ?\<close> changes nothing when the row is gone.\<close>

definition updateMeeting :: "nat \<Rightarrow> meeting \<Rightarrow> pm_state \<Rightarrow> pm_state" where
  "updateMeeting meetingId row s =
     (case db s meetingId of
        None \<Rightarrow> s
      | Some _ \<Rightarrow> s\<lparr>db := (db s)(meetingId \<mapsto> row), writes := writes s @ [row]\<rparr>)"

definition error_marker :: "string \<Rightarrow> string" where
  "error_marker msg = ''ERROR: '' @ msg"

text \<open>
  The \<^verbatim>\<open>catch\<close> block of \<^verbatim>\<open>processMeeting\<close>. When the row is gone, reading
  \<^verbatim>\<open>meeting.title\<close> throws, and the inner \<^verbatim>\<open>catch\<close> only logs.
\<close>

definition markError :: "nat \<Rightarrow> string \<Rightarrow> pm_state \<Rightarrow> pm_state" where
  "markError meetingId msg s =
     (case db s meetingId of
        None \<Rightarrow> s
      | Some m \<Rightarrow>
          updateMeeting meetingId
            (m\<lparr>m_duration := 0, transcript_path := Some (error_marker msg),
               summary_path := None\<rparr>) s)"

text \<open>
  \<^verbatim>\<open>Promise.race\<close> settles once. A rejection that reaches it first runs the \<^verbatim>\<open>catch\<close> block;
  whatever arrives later is dropped.
\<close>

definition settleReject :: "nat \<Rightarrow> string \<Rightarrow> pm_state \<Rightarrow> pm_state" where
  "settleReject meetingId msg s =
     (if settled s = None then (markError meetingId msg s)\<lparr>settled := Some (Inl msg)\<rparr> else s)"

definition settleResolve :: "pm_state \<Rightarrow> pm_state" where
  "settleResolve s = (if settled s = None then s\<lparr>settled := Some (Inr ())\<rparr> else s)"

definition timeout_message :: "nat \<Rightarrow> nat \<Rightarrow> string" where
  "timeout_message meetingId timeoutMs =
     ''Meeting '' @ show_nat meetingId @ '' processing timed out after '' @
     show_nat (timeoutMs div 1000) @ ''s''"

text \<open>
  The timer of \<^verbatim>\<open>withTimeout\<close>. \<open>fires = Some k\<close> says that it goes off while the \<open>k\<close>-th
  \<^verbatim>\<open>await\<close> of the wrapped function is pending (1 \<^verbatim>\<open>transcribeWithRetry\<close>, 2
  \<^verbatim>\<open>saveTranscript\<close>, 3 \<^verbatim>\<open>analyzeMeeting\<close>, 4 \<^verbatim>\<open>saveSummary\<close>, 5 \<^verbatim>\<open>buildSearchIndex\<close>);
  \<open>None\<close>, or an \<^verbatim>\<open>await\<close> that is never reached, that it goes off after the wrapped
  function has finished, if at all. Nothing cancels the wrapped function.
\<close>

definition timer :: "nat option \<Rightarrow> nat \<Rightarrow> nat \<Rightarrow> nat \<Rightarrow> pm_state \<Rightarrow> pm_state" where
  "timer fires k meetingId timeoutMs s =
     (if fires = Some k then settleReject meetingId (timeout_message meetingId timeoutMs) s else s)"

definition MISSING_ROW_MESSAGE :: string where
  "MISSING_ROW_MESSAGE =
     ''Cannot read properties of undefined (reading '' @ [CHR 0x27] @ ''title'' @ [CHR 0x27] @ '')''"

text \<open>
  The function wrapped by \<^verbatim>\<open>withTimeout\<close> in \<^verbatim>\<open>processMeeting\<close>, from the moment
  \<^verbatim>\<open>transcribeWithRetry\<close> is pending, given how that call ends: the steps run in order, the
  timer may go off at one of the \<^verbatim>\<open>await\<close>s, and every rejection goes through the race.
\<close>

definition wrappedSteps ::
  "env \<Rightarrow> nat option \<Rightarrow> nat \<Rightarrow> nat \<Rightarrow> string + transcription \<Rightarrow> pm_state \<Rightarrow> pm_state"
where
  "wrappedSteps e fires meetingId timeoutMs r s0 =
     (let reject = settleReject meetingId;
          tick = (\<lambda>k. timer fires k meetingId timeoutMs);
          s1 = tick 1 s0
      in case r of
           Inl msg \<Rightarrow> reject msg s1
         | Inr t \<Rightarrow>
            (let s2 = tick 2 s1
             in case saveTranscript_result e of
                  Inl msg \<Rightarrow> reject msg s2
                | Inr txtPath \<Rightarrow>
                   (let s3 = tick 3 s2
                    in case analyzeMeeting_error e of
                         Some msg \<Rightarrow> reject msg s3
                       | None \<Rightarrow>
                          (let s4 = tick 4 s3
                           in case saveSummary_result e of
                                Inl msg \<Rightarrow> reject msg s4
                              | Inr summaryPath \<Rightarrow>
                                 (case db s4 meetingId of
                                    None \<Rightarrow> reject MISSING_ROW_MESSAGE s4
                                  | Some m \<Rightarrow>
                                     (let s5 = updateMeeting meetingId
                                            (m\<lparr>m_duration := \<lfloor>t_duration t\<rfloor>,
                                               transcript_path := Some txtPath,
                                               summary_path := Some summaryPath\<rparr>) s4
                                      in case metadata_error e of
                                           Some msg \<Rightarrow> reject msg s5
                                         | None \<Rightarrow>
                                            (let s6 = tick 5 s5
                                             in case buildSearchIndex_error e of
                                                  Some msg \<Rightarrow> reject msg s6
                                                | None \<Rightarrow> settleResolve s6)))))))"

text \<open>
  \<^verbatim>\<open>processMeeting\<close>: the deadline is computed first, then the wrapped function runs
  against it. The result is the final state of the table and of the promise, with the
  effects of the transcription. A transcription that never returns leaves the timer
  alone in the race, and has no final state.
\<close>

definition processMeeting ::
  "env \<Rightarrow> nat option \<Rightarrow> nat \<Rightarrow> string \<Rightarrow> state \<Rightarrow> pm_state \<Rightarrow> pm_state \<times> state option"
where
  "processMeeting e fires meetingId audioPath st s0 =
     (let PROCESSING_TIMEOUT = calculateTimeout e audioPath
      in case transcribeWithRetry e audioPath (Some meetingId) st of
           None \<Rightarrow> (timer fires 1 meetingId PROCESSING_TIMEOUT s0, None)
         | Some (r, st') \<Rightarrow>
             (wrappedSteps e fires meetingId PROCESSING_TIMEOUT r s0, Some st'))"


section \<open>Notions for stating the merger's properties\<close>

text \<open>Stripping white space at the end only; \<^verbatim>\<open>trim\<close> strips both ends.\<close>

definition rtrim :: "nat list \<Rightarrow> nat list" where
  "rtrim s = rev (dropWhile is_ws (rev s))"

text \<open>The texts joined in order with one space between two neighbours.\<close>

fun join_with_space :: "nat list list \<Rightarrow> nat list" where
  "join_with_space [] = []"
| "join_with_space [t] = t"
| "join_with_space (t # ts) = t @ [SPACE] @ join_with_space ts"

lemma length_dropWhile_not_ws:
  assumes "dropWhile is_ws s \<noteq> []"
  shows "length (dropWhile (\<lambda>c. \<not> is_ws c) (dropWhile is_ws s)) < length s"
proof -
  from assms obtain c cs where s': "dropWhile is_ws s = c # cs" by (cases "dropWhile is_ws s") auto
  then have "\<not> is_ws c" using hd_dropWhile[of is_ws s] by auto
  then have "dropWhile (\<lambda>c. \<not> is_ws c) (c # cs) = dropWhile (\<lambda>c. \<not> is_ws c) cs" by simp
  moreover have "length (dropWhile (\<lambda>c. \<not> is_ws c) cs) \<le> length cs" by (rule length_dropWhile_le)
  moreover have "length (c # cs) \<le> length s" using length_dropWhile_le[of is_ws s] s' by simp
  ultimately show ?thesis using s' by simp
qed

text \<open>The maximal runs of code units that are not white space, in order.\<close>

function ws_words :: "nat list \<Rightarrow> nat list list" where
  "ws_words s =
     (let s' = dropWhile is_ws s
      in if s' = [] then []
         else takeWhile (\<lambda>c. \<not> is_ws c) s' # ws_words (dropWhile (\<lambda>c. \<not> is_ws c) s'))"
  by pat_completeness auto
termination
  by (relation "measure length") (auto simp: length_dropWhile_not_ws)

declare ws_words.simps [simp del]

text \<open>
  The two accumulations of the loop of \<^verbatim>\<open>mergeTranscripts\<close> in closed form: every text
  followed by a space, and every segment moved by the start time of its chunk.
\<close>

definition texts_with_space :: "chunk_result list \<Rightarrow> nat list" where
  "texts_with_space rs = concat (map (\<lambda>r. t_text (transcription r) @ [SPACE]) rs)"

definition shifted_segments :: "chunk_result list \<Rightarrow> segment list" where
  "shifted_segments rs =
     concat (map (\<lambda>r. map (adjust (startTime (chunk r))) (segments (transcription r))) rs)"

text \<open>
  Following the spec's words for "merging an intermediate transcript with further chunks":
  the source has no such operation, and a merged transcript has the shape of a
  transcription, so it is fed back as the result of one chunk that starts at 0 and ends
  at its duration.
\<close>

definition spec_as_chunk_result :: "transcription \<Rightarrow> chunk_result" where
  "spec_as_chunk_result m =
     \<lparr>chunk = \<lparr>index = 0, path = [], startTime = 0, endTime = t_duration m,
               duration = t_duration m, sizeMB = 0, filename = []\<rparr>,
      transcription = m\<rparr>"

text \<open>
  What the service can answer for the file of a chunk: segments in non-decreasing order
  of start, each inside the audio that the file holds.
\<close>

definition well_timed :: "chunk_result \<Rightarrow> bool" where
  "well_timed r =
     (sorted (map seg_start (segments (transcription r))) \<and>
      list_all (\<lambda>s. 0 \<le> seg_start s \<and> seg_start s \<le> seg_end s \<and>
                     seg_end s \<le> file_duration (chunk r))
               (segments (transcription r)))"

text \<open>
  The five classes of failure that the spec names, read off the tests of
  \<^verbatim>\<open>checkAPIQuotaError\<close> and of the \<^verbatim>\<open>catch\<close> block, in the order in which the source makes
  them.
\<close>

datatype failure_class = RateLimited | Unauthorized | QuotaExceeded | PayloadTooLarge | Unknown

definition failure_class_of :: "api_error \<Rightarrow> failure_class" where
  "failure_class_of err =
     (if status err = Some 429 then RateLimited
      else if status err = Some 401 then Unauthorized
      else if status err = Some 402 \<or> code err = Some ''insufficient_quota''
              \<or> (message err \<noteq> [] \<and> str_includes (message err) ''quota'')
              \<or> (message err \<noteq> [] \<and> str_includes (message err) ''billing'')
        then QuotaExceeded
      else if status err = Some 413 \<or> str_includes (message err) ''413'' then PayloadTooLarge
      else Unknown)"

text \<open>The effects of the retries 1 to \<open>n\<close> of a chunk: a sleep, then a call, each time.\<close>

definition retry_events :: "chunk \<Rightarrow> nat \<Rightarrow> event list" where
  "retry_events c n = concat (map (\<lambda>k. [Sleep (2 ^ k * 2500), Transcribe (path c)]) [1..<Suc n])"

section \<open>Sample collaborators\<close>

text \<open>
  A run in which everything works: a 40 MB recording of half an hour, whose converted
  waveform is above the threshold.
\<close>

definition sample_transcription :: transcription where
  "sample_transcription =
     \<lparr>t_text = map of_char ''hello world'', language = ''english'', t_duration = 600,
      segments = [\<lparr>seg_start = 0, seg_end = 4, seg_text = map of_char ''hello world''\<rparr>]\<rparr>"

definition sample_env :: env where
  "sample_env =
     \<lparr>client_configured = True, full_path = (\<lambda>p. p), now = 1700000000000,
      CHUNK_DIR = ''storage/chunks'',
      stat_size = (\<lambda>p. Inr (40 * 1024 * 1024)),
      ffprobe = (\<lambda>p. Inr (1800, 40 * 1024 * 1024)),
      ffmpeg_convert = (\<lambda>a b. None),
      mkdir_chunks = None,
      ffmpeg_extract = (\<lambda>p s d. Inr (10 * 1024 * 1024)),
      api = (\<lambda>n p. Inr sample_transcription),
      saveTranscript_result = Inr ''/storage/transcripts/meeting-7-1.txt'',
      analyzeMeeting_error = None,
      saveSummary_result = Inr ''/storage/summaries/meeting-7-1.md'',
      metadata_error = None,
      buildSearchIndex_error = None\<rparr>"

definition init_state :: state where
  "init_state = \<lparr>calls = 0, trace = []\<rparr>"

text \<open>Two chunk results with untidy white space, and a plan of three chunks in which the
  second answer has a segment in the last two seconds of its file.\<close>

definition two_results :: "chunk_result list" where
  "two_results =
     [\<lparr>chunk = \<lparr>index = 0, path = ''c0.wav'', startTime = 0, endTime = 600, duration = 600,
                sizeMB = 18, filename = ''c0.wav''\<rparr>,
       transcription = \<lparr>t_text = map of_char '' hello   world'', language = ''english'',
                        t_duration = 600,
                        segments = [\<lparr>seg_start = 1, seg_end = 3, seg_text = map of_char ''hello   world''\<rparr>]\<rparr>\<rparr>,
      \<lparr>chunk = \<lparr>index = 1, path = ''c1.wav'', startTime = 600, endTime = 900, duration = 300,
                sizeMB = 9, filename = ''c1.wav''\<rparr>,
       transcription = \<lparr>t_text = map of_char ''again '', language = ''english'',
                        t_duration = 302,
                        segments = [\<lparr>seg_start = 2, seg_end = 4, seg_text = map of_char ''again''\<rparr>]\<rparr>\<rparr>]"

definition sample_chunk :: "nat \<Rightarrow> rat \<Rightarrow> rat \<Rightarrow> chunk" where
  "sample_chunk i s t =
     \<lparr>index = i, path = ''storage/chunks/meeting-7-converted_chunk'' @ show_nat i @ ''.wav'',
      startTime = s, endTime = t, duration = t - s, sizeMB = 10,
      filename = ''meeting-7-converted_chunk'' @ show_nat i @ ''.wav''\<rparr>"

definition overlap_results :: "chunk_result list" where
  "overlap_results =
     [\<lparr>chunk = sample_chunk 0 0 600,
       transcription = \<lparr>t_text = map of_char ''one'', language = ''english'', t_duration = 600,
                        segments = [\<lparr>seg_start = 0, seg_end = 600, seg_text = map of_char ''one''\<rparr>]\<rparr>\<rparr>,
      \<lparr>chunk = sample_chunk 1 600 1200,
       transcription = \<lparr>t_text = map of_char ''two'', language = ''english'', t_duration = 602,
                        segments = [\<lparr>seg_start = 601, seg_end = 602, seg_text = map of_char ''two''\<rparr>]\<rparr>\<rparr>,
      \<lparr>chunk = sample_chunk 2 1200 1800,
       transcription = \<lparr>t_text = map of_char ''three'', language = ''english'', t_duration = 602,
                        segments = [\<lparr>seg_start = 0, seg_end = 1, seg_text = map of_char ''three''\<rparr>]\<rparr>\<rparr>]"

text \<open>The same run for a recording of 90 MB.\<close>

definition big_env :: env where
  "big_env = sample_env\<lparr>stat_size := (\<lambda>p. Inr (90 * 1024 * 1024)),
                         ffprobe := (\<lambda>p. Inr (1800, 90 * 1024 * 1024))\<rparr>"

text \<open>The service answers every request with the same error.\<close>

definition always_failing :: "api_error \<Rightarrow> env" where
  "always_failing err = sample_env\<lparr>api := (\<lambda>n p. Inl err)\<rparr>"

definition connection_error :: api_error where
  "connection_error = \<lparr>status = None, code = None, message = ''Connection error.''\<rparr>"


text \<open>The double nearest to one tenth.\<close>

definition tenth :: rat where
  "tenth = 3602879701896397 / 36028797018963968"

text \<open>
  The start times of a run of the loop from the start time \<open>s\<close>: each is the double sum
  of the one before and the chunk duration, all but the last are below the total
  duration, and the last is not.
\<close>

fun follows :: "rat \<Rightarrow> rat \<Rightarrow> rat \<Rightarrow> rat list \<Rightarrow> bool" where
  "follows C D s [] = (\<not> s < D)"
| "follows C D s (x # xs) = (s < D \<and> x = fadd s C \<and> follows C D x xs)"

text \<open>The double sums 0.1, 0.1 + 0.1, ..., up to the first that is not below 1.\<close>

definition tenth_sums :: "rat list" where
  "tenth_sums =
     [3602879701896397 / 36028797018963968, 3602879701896397 / 18014398509481984,
      1351079888211149 / 4503599627370496, 3602879701896397 / 9007199254740992,
      1 / 2, 5404319552844595 / 9007199254740992, 3152519739159347 / 4503599627370496,
      7205759403792793 / 9007199254740992, 2026619832316723 / 2251799813685248,
      9007199254740991 / 9007199254740992, 4953959590107545 / 4503599627370496]"

section \<open>Double arithmetic on whole numbers\<close>

text \<open>Whole numbers up to \<open>2^53\<close> are doubles, so sums and differences among them are exact.\<close>

lemma round_half_even_of_int: "round_half_even (of_int z) = z"
  by (simp add: round_half_even_def)

lemma round_double_of_nat:
  assumes "n \<le> 2 ^ 53"
  shows "round_double (of_nat n) = of_nat n"
proof (cases "n = 0")
  case True
  then show ?thesis by (simp add: round_double_def)
next
  case False
  then have pos: "0 < int n" by simp
  let ?b = "bitlen (int n)"
  from bitlen_bounds[OF pos] have lo: "2 ^ nat (?b - 1) \<le> int n" and hi: "int n < 2 ^ nat ?b"
    by simp_all
  from pos have b1: "1 \<le> ?b" by (simp add: bitlen_alt_def)
  have fl: "floor_log2 (of_nat n) = ?b - 1"
    using False by (simp add: floor_log2_def)
  have "(2::int) ^ nat (?b - 1) \<le> 2 ^ 53"
    using lo assms by (metis (mono_tags) of_nat_le_iff of_nat_numeral of_nat_power order_trans)
  then have "nat (?b - 1) \<le> 53" by (rule power_le_imp_le_exp[of "2::int", rotated]) simp
  then have b54: "?b \<le> 54" by simp
  let ?e = "?b - 53"
  have x0: "(of_nat n :: rat) \<noteq> 0" "\<bar>of_nat n :: rat\<bar> = of_nat n" "sgn (of_nat n :: rat) = 1"
    using False by simp_all
  show ?thesis
  proof (cases "?e \<le> 0")
    case True
    let ?k = "nat (- ?e)"
    have p: "pow2 ?e = 1 / 2 ^ ?k"
    proof (cases "?e = 0")
      case True
      then show ?thesis by (simp add: pow2_def)
    next
      case False
      with \<open>?e \<le> 0\<close> show ?thesis by (simp add: pow2_def)
    qed
    have "of_nat n / pow2 ?e = (of_int (int n * 2 ^ ?k) :: rat)" by (simp add: p)
    then have "round_half_even (of_nat n / pow2 ?e) = int n * 2 ^ ?k"
      by (simp only: round_half_even_of_int)
    then have "round_double (of_nat n) = of_int (int n * 2 ^ ?k) * (1 / 2 ^ ?k)"
      using x0 fl by (simp add: round_double_def Let_def p del: of_int_mult of_int_power)
    then show ?thesis by simp
  next
    case False
    with b54 have b: "?b = 54" by simp
    with lo have "2 ^ 53 \<le> int n" by simp
    with assms have n: "n = 2 ^ 53"
      by (metis (mono_tags) nat_int nat_le_iff nat_numeral nat_power_eq order_antisym zero_le_numeral)
    have p: "pow2 1 = 2" by (simp add: pow2_def)
    have "(2 ^ 53 / 2 :: rat) = of_int (2 ^ 52)" by simp
    then have "round_half_even (2 ^ 53 / 2) = 2 ^ 52"
      by (simp only: round_half_even_of_int)
    then show ?thesis
      using fl b by (simp add: round_double_def Let_def n p)
  qed
qed

lemma fadd_of_nat: "a + b \<le> 2 ^ 53 \<Longrightarrow> fadd (of_nat a) (of_nat b) = of_nat (a + b)"
  using round_double_of_nat[of "a + b"] by (simp add: fadd_def)

lemma fsub_of_nat: "b \<le> a \<Longrightarrow> a \<le> 2 ^ 53 \<Longrightarrow> fsub (of_nat a) (of_nat b) = of_nat (a - b)"
  using round_double_of_nat[of "a - b"] by (simp add: fsub_def of_nat_diff)

lemma fadd_numeral [simp]:
  "numeral a + numeral b \<le> (9007199254740992::nat) \<Longrightarrow>
   fadd (numeral a) (numeral b) = numeral a + numeral b"
  using fadd_of_nat[of "numeral a" "numeral b"] by simp

lemma fadd_zero_numeral [simp]:
  "numeral b \<le> (9007199254740992::nat) \<Longrightarrow> fadd 0 (numeral b) = numeral b"
  using fadd_of_nat[of 0 "numeral b"] by simp

lemma fsub_numeral [simp]:
  assumes "numeral b \<le> (numeral a :: nat)" "numeral a \<le> (9007199254740992::nat)"
  shows "fsub (numeral a) (numeral b) = numeral a - numeral b"
proof -
  have le: "(numeral a :: nat) \<le> 2 ^ 53" using assms(2) by simp
  have "fsub (of_nat (numeral a)) (of_nat (numeral b)) = of_nat (numeral a - numeral b)"
    by (rule fsub_of_nat[OF assms(1) le])
  also have "of_nat (numeral a - numeral b :: nat) = (of_nat (numeral a) - of_nat (numeral b) :: rat)"
    by (rule of_nat_diff[OF assms(1)])
  finally show ?thesis by (simp only: of_nat_numeral)
qed

lemma fsub_numeral_zero [simp]:
  "numeral a \<le> (9007199254740992::nat) \<Longrightarrow> fsub (numeral a) 0 = numeral a"
  using fsub_of_nat[of 0 "numeral a"] by simp


lemma fadd_numeral_zero [simp]:
  "numeral a \<le> (9007199254740992::nat) \<Longrightarrow> fadd (numeral a) 0 = numeral a"
  using fadd_of_nat[of "numeral a" 0] by simp

lemma fadd_step:
  assumes "of_nat s < (D::rat)" "D + of_nat c \<le> 2 ^ 53"
  shows "fadd (of_nat s) (of_nat c) = of_nat (s + c)"
proof -
  from assms have "(of_nat (s + c) :: rat) \<le> of_nat (2 ^ 53)" by simp
  then have "s + c \<le> 2 ^ 53" by (simp only: of_nat_le_iff)
  then show ?thesis by (rule fadd_of_nat)
qed

section \<open>The plan of the chunk planner\<close>

text \<open>
  What a finished run of the loop has added: contiguous windows from the start time,
  numbered from the number of chunks already there, ending at the total duration.
\<close>

definition planned :: "rat \<Rightarrow> rat \<Rightarrow> nat \<Rightarrow> chunk list \<Rightarrow> bool" where
  "planned t D k cs =
     (contiguous_from t cs \<and> map index cs = [k..<k + length cs] \<and>
      (\<forall>c \<in> set cs. endTime c \<le> D) \<and>
      (if cs = [] then D \<le> t else endTime (last cs) = D))"

lemma ceil_step:
  fixes D start C :: rat
  assumes "0 < C" "start < D"
  shows "nat \<lceil>(D - start) / C\<rceil> = Suc (nat \<lceil>(D - (start + C)) / C\<rceil>)"
proof -
  have "(D - start) / C = (D - (start + C)) / C + 1"
    using assms by (simp add: field_simps)
  then have "\<lceil>(D - start) / C\<rceil> = \<lceil>(D - (start + C)) / C\<rceil> + 1"
    by simp
  moreover have "0 < \<lceil>(D - start) / C\<rceil>"
    using assms by (simp add: field_simps)
  ultimately show ?thesis by linarith
qed

lemma ceil_done:
  fixes D start C :: rat
  assumes "0 < C" "\<not> start < D"
  shows "nat \<lceil>(D - start) / C\<rceil> = 0"
proof -
  have "(D - start) / C \<le> 0" using assms by (simp add: field_simps)
  then have "\<lceil>(D - start) / C\<rceil> \<le> 0" by (simp add: ceiling_le_zero)
  then show ?thesis by simp
qed


lemma ceil_step_nat:
  assumes "0 < c" "of_nat s < (D::rat)"
  shows "nat \<lceil>(D - of_nat s) / of_nat c\<rceil> = Suc (nat \<lceil>(D - of_nat (s + c)) / of_nat c\<rceil>)"
  using ceil_step[of "of_nat c" "of_nat s" D] assms by simp

lemma splitLoop_returns:
  assumes "0 < c" "D + of_nat c \<le> 2 ^ 53"
  shows "\<exists>r. splitLoop e b D (of_nat c) acc (of_nat s) = Some r"
proof (induction n \<equiv> "nat \<lceil>(D - of_nat s) / of_nat c\<rceil>" arbitrary: acc s)
  case 0
  have "\<not> of_nat s < D"
  proof
    assume "of_nat s < D"
    from ceil_step_nat[OF assms(1) this] 0 show False by simp
  qed
  then show ?case by (subst splitLoop.simps) simp
next
  case (Suc n)
  show ?case
  proof (cases "of_nat s < D")
    case False
    then show ?thesis by (subst splitLoop.simps) simp
  next
    case True
    from ceil_step_nat[OF assms(1) True] Suc(2)
    have n: "n = nat \<lceil>(D - of_nat (s + c)) / of_nat c\<rceil>" by simp
    note step = fadd_step[OF True assms(2)]
    show ?thesis
      using True Suc(1)[OF n]
      by (subst splitLoop.simps) (simp add: Let_def step split: sum.splits)
  qed
qed

lemma splitLoop_succeeds:
  assumes "0 < c" "D + of_nat c \<le> 2 ^ 53"
    and ok: "\<And>p s d. \<exists>bytes. ffmpeg_extract e p s d = Inr bytes"
  shows "\<exists>out. splitLoop e b D (of_nat c) acc (of_nat s) = Some (Inr out)"
proof (induction n \<equiv> "nat \<lceil>(D - of_nat s) / of_nat c\<rceil>" arbitrary: acc s)
  case 0
  have "\<not> of_nat s < D"
  proof
    assume "of_nat s < D"
    from ceil_step_nat[OF assms(1) this] 0 show False by simp
  qed
  then show ?case by (subst splitLoop.simps) simp
next
  case (Suc n)
  show ?case
  proof (cases "of_nat s < D")
    case False
    then show ?thesis by (subst splitLoop.simps) simp
  next
    case True
    from ceil_step_nat[OF assms(1) True] Suc(2)
    have n: "n = nat \<lceil>(D - of_nat (s + c)) / of_nat c\<rceil>" by simp
    note step = fadd_step[OF True assms(2)]
    have noerr: "ffmpeg_extract e p s d \<noteq> Inl m" for p s d m
      using ok[of p s d] by auto
    show ?thesis
      using True Suc(1)[OF n]
      by (subst splitLoop.simps) (simp add: Let_def step noerr split: sum.splits)
  qed
qed

lemma upt_head: "[k..<k + Suc n] = k # [Suc k..<Suc k + n]"
  by (simp add: upt_rec[of k] del: upt_Suc)

lemma contiguous_from_append:
  "contiguous_from t (xs @ ys) =
     (contiguous_from t xs \<and> contiguous_from (if xs = [] then t else endTime (last xs)) ys)"
  by (induction xs arbitrary: t) auto


lemma splitLoop_planned:
  assumes "0 < c" "D + of_nat c \<le> 2 ^ 53"
  shows "splitLoop e b D (of_nat c) acc (of_nat s) = Some (Inr out) \<Longrightarrow>
         \<exists>new. out = acc @ new \<and> length new = nat \<lceil>(D - of_nat s) / of_nat c\<rceil> \<and>
               planned (of_nat s) D (length acc) new"
proof (induction n \<equiv> "nat \<lceil>(D - of_nat s) / of_nat c\<rceil>" arbitrary: acc s)
  case 0
  have nlt: "\<not> of_nat s < D"
  proof
    assume "of_nat s < D"
    from ceil_step_nat[OF assms(1) this] 0 show False by simp
  qed
  with 0(2) have "out = acc" by (subst (asm) splitLoop.simps) simp
  with nlt 0(1) show ?case by (simp add: planned_def)
next
  case (Suc n)
  let ?start = "of_nat s :: rat"
  let ?next = "of_nat (s + c) :: rat"
  show ?case
  proof (cases "?start < D")
    case False
    have "0 < (of_nat c :: rat)" using assms(1) by simp
    from ceil_done[OF this False] Suc(2) show ?thesis by simp
  next
    case True
    from ceil_step_nat[OF assms(1) True] Suc(2)
    have n: "n = nat \<lceil>(D - ?next) / of_nat c\<rceil>" by simp
    note step = fadd_step[OF True assms(2)]
    define ch where "ch = \<lparr>index = length acc,
        path = CHUNK_DIR e @ ''/'' @ b @ ''_chunk'' @ show_nat (length acc) @ ''.wav'',
        startTime = ?start, endTime = min ?next D, duration = fsub (min ?next D) ?start,
        sizeMB = 0, filename = b @ ''_chunk'' @ show_nat (length acc) @ ''.wav''\<rparr>"
    from Suc(3) True obtain bytes where
      rec: "splitLoop e b D (of_nat c) (acc @ [ch\<lparr>sizeMB := of_nat bytes / (1024 * 1024)\<rparr>])
              (of_nat (s + c)) = Some (Inr out)"
      by (subst (asm) splitLoop.simps) (auto simp: Let_def ch_def step split: sum.splits)
    let ?c = "ch\<lparr>sizeMB := of_nat bytes / (1024 * 1024)\<rparr>"
    from Suc(1)[OF n rec] obtain new where
      new: "out = (acc @ [?c]) @ new" "length new = n"
           "planned ?next D (Suc (length acc)) new"
      using n by auto
    have c_facts: "startTime ?c = ?start" "endTime ?c = min ?next D" "index ?c = length acc"
      by (simp_all add: ch_def)
    have cpos: "?start < ?next" using assms(1) by simp
    have "planned ?start D (length acc) (?c # new)"
    proof (cases "new = []")
      case True
      with new(3) have "D \<le> ?next" by (simp add: planned_def)
      with True \<open>?start < D\<close> c_facts show ?thesis
        by (simp add: planned_def)
    next
      case False
      with new(3) have "contiguous_from ?next new" by (simp add: planned_def)
      with False have "startTime (hd new) = ?next" "?next < endTime (hd new)"
        by (cases new; simp)+
      moreover from new(3) False have "endTime (hd new) \<le> D" by (cases new) (simp_all add: planned_def)
      ultimately have lt: "?next < D" by simp
      then have m: "min ?next D = ?next" by simp
      have idx: "[length acc..<length acc + length (?c # new)] =
                 length acc # [Suc (length acc)..<Suc (length acc) + length new]"
        using upt_head[of "length acc" "length new"] by simp
      from new(3) False cpos c_facts m lt show ?thesis
        unfolding planned_def idx by simp
    qed
    with new(1,2) Suc(2) show ?thesis by (intro exI[of _ "?c # new"]) simp
  qed
qed

lemma contiguous_from_nth_lt:
  "contiguous_from t cs \<Longrightarrow> i < length cs \<Longrightarrow> startTime (cs ! i) < endTime (cs ! i)"
  by (induction cs arbitrary: t i) (auto simp: nth_Cons split: nat.splits)

lemma contiguous_from_nth_Suc:
  "contiguous_from t cs \<Longrightarrow> Suc i < length cs \<Longrightarrow> startTime (cs ! Suc i) = endTime (cs ! i)"
proof (induction cs arbitrary: t i)
  case Nil
  then show ?case by simp
next
  case (Cons c cs)
  show ?case
  proof (cases i)
    case 0
    with Cons.prems show ?thesis by (cases cs) auto
  next
    case (Suc j)
    with Cons show ?thesis by auto
  qed
qed

lemma contiguous_from_start_ge:
  "contiguous_from t cs \<Longrightarrow> c \<in> set cs \<Longrightarrow> t \<le> startTime c"
proof (induction cs arbitrary: t)
  case Nil
  then show ?case by simp
next
  case (Cons a cs)
  then show ?case by fastforce
qed

lemma contiguous_from_order:
  "contiguous_from t cs \<Longrightarrow> i < j \<Longrightarrow> j < length cs \<Longrightarrow> endTime (cs ! i) \<le> startTime (cs ! j)"
proof (induction cs arbitrary: t i j)
  case Nil
  then show ?case by simp
next
  case (Cons c cs)
  from Cons.prems obtain j' where j: "j = Suc j'" by (cases j) auto
  show ?case
  proof (cases i)
    case 0
    from Cons.prems j have "cs ! j' \<in> set cs" by simp
    with Cons.prems contiguous_from_start_ge[of "endTime c" cs "cs ! j'"] 0 j show ?thesis by simp
  next
    case (Suc i')
    with Cons j show ?thesis by auto
  qed
qed

lemma contiguous_from_cover:
  "contiguous_from t cs \<Longrightarrow> cs \<noteq> [] \<Longrightarrow>
   (\<Union>c \<in> set cs. {startTime c..<endTime c}) = {t..<endTime (last cs)}"
proof (induction cs arbitrary: t)
  case Nil
  then show ?case by simp
next
  case (Cons c cs)
  show ?case
  proof (cases "cs = []")
    case True
    with Cons.prems show ?thesis by simp
  next
    case False
    with Cons have IH: "(\<Union>c \<in> set cs. {startTime c..<endTime c}) = {endTime c..<endTime (last cs)}"
      by simp
    from False Cons.prems have "endTime c < endTime (last cs)"
      using contiguous_from_nth_lt[of "endTime c" cs "length cs - 1"]
            contiguous_from_start_ge[of "endTime c" cs "last cs"]
      by (simp add: last_conv_nth)
    with Cons.prems False IH show ?thesis by auto
  qed
qed


lemma splitIntoChunks_planned:
  assumes "0 < c" "D + of_nat c \<le> 2 ^ 53"
    and "splitIntoChunks e wav D (of_nat c) st = Some (Inr cs, st')"
  shows "length cs = nat \<lceil>D / of_nat c\<rceil> \<and> planned 0 D 0 cs"
proof -
  from assms(3) have "splitLoop e (basename_noext wav) D (of_nat c) [] (of_nat 0) = Some (Inr cs)"
    by (auto simp: splitIntoChunks_def Let_def split: option.splits sum.splits)
  from splitLoop_planned[OF assms(1,2) this] show ?thesis by simp
qed

lemma splitIntoChunks_returns:
  assumes "0 < c" "D + of_nat c \<le> 2 ^ 53"
  shows "\<exists>r. splitIntoChunks e wav D (of_nat c) st = Some r"
  using splitLoop_returns[OF assms, of e "basename_noext wav" "[]" 0]
  by (auto simp: splitIntoChunks_def Let_def split: option.splits sum.splits)

lemma splitIntoChunks_succeeds:
  assumes "0 < c" "D + of_nat c \<le> 2 ^ 53"
    and "mkdir_chunks e = None" "\<And>p s d. \<exists>bytes. ffmpeg_extract e p s d = Inr bytes"
  shows "\<exists>cs st'. splitIntoChunks e wav D (of_nat c) st = Some (Inr cs, st')"
  using splitLoop_succeeds[OF assms(1,2,4), of "basename_noext wav" "[]" 0] assms(3)
  by (auto simp: splitIntoChunks_def Let_def split: option.splits sum.splits)

lemma splitLoop_follows:
  assumes ok: "\<And>p s d. \<exists>bytes. ffmpeg_extract e p s d = Inr bytes"
  shows "follows C D s xs \<Longrightarrow>
     \<exists>new. splitLoop e b D C acc s = Some (Inr (acc @ new)) \<and>
           map startTime new = butlast (s # xs)"
proof (induction xs arbitrary: s acc)
  case Nil
  then show ?case by (subst splitLoop.simps) simp
next
  case (Cons x xs)
  have noerr: "ffmpeg_extract e p s d \<noteq> Inl m" for p s d m
    using ok[of p s d] by auto
  from Cons.prems have s: "s < D" and x: "x = fadd s C" and f: "follows C D x xs" by auto
  obtain bytes where ex: "ffmpeg_extract e
        (CHUNK_DIR e @ ''/'' @ b @ ''_chunk'' @ show_nat (length acc) @ ''.wav'')
        (if length acc > 0 then max 0 (fsub s CHUNK_OVERLAP_SECONDS) else s)
        (fadd (fsub (min (fadd s C) D) s) (if length acc > 0 then CHUNK_OVERLAP_SECONDS else 0))
        = Inr bytes"
    using ok by blast
  let ?c = "\<lparr>index = length acc,
        path = CHUNK_DIR e @ ''/'' @ b @ ''_chunk'' @ show_nat (length acc) @ ''.wav'',
        startTime = s, endTime = min (fadd s C) D, duration = fsub (min (fadd s C) D) s,
        sizeMB = of_nat bytes / (1024 * 1024),
        filename = b @ ''_chunk'' @ show_nat (length acc) @ ''.wav''\<rparr>"
  from Cons.IH[OF f, of "acc @ [?c]"] obtain new where
    new: "splitLoop e b D C (acc @ [?c]) x = Some (Inr ((acc @ [?c]) @ new))"
         "map startTime new = butlast (x # xs)" by blast
  have "splitLoop e b D C acc s = splitLoop e b D C (acc @ [?c]) x"
    using s ex by (subst splitLoop.simps) (simp add: Let_def x)
  with new show ?case by (intro exI[of _ "?c # new"]) simp
qed

lemma tenth_follows: "follows tenth 1 0 tenth_sums"
  by code_simp

lemma tenth_facts: "round_double (1 / 10) = tenth" "nat \<lceil>1 / tenth\<rceil> = 10"
  by code_simp+

text \<open>
  The claim C4 as it is stated fails for a chunk duration that is not a whole number: for
  a duration of 1 and a chunk duration of 0.1 (as a double), ten additions of the chunk
  duration give 0.9999999999999999, which is still below 1, and the plan has 11 entries
  where \<open>\<lceil>D / C\<rceil>\<close> is 10.
\<close>

theorem splitIntoChunks_count_counterexample:
  "(0::rat) < 1 \<and> 0 < tenth \<and> round_double (1 / 10) = tenth \<and> nat \<lceil>1 / tenth\<rceil> = 10 \<and>
   (\<exists>cs st'. splitIntoChunks sample_env ''storage/chunks/meeting-7-converted.wav'' 1 tenth init_state
                = Some (Inr cs, st') \<and>
              length cs = 11 \<and> length cs \<noteq> nat \<lceil>1 / tenth\<rceil> \<and>
              startTime (last cs) = 9007199254740991 / 9007199254740992)"
proof -
  have ok: "\<exists>bytes. ffmpeg_extract sample_env p s d = Inr bytes" for p s d
    by (simp add: sample_env_def)
  from splitLoop_follows[OF ok tenth_follows,
      of "basename_noext ''storage/chunks/meeting-7-converted.wav''" "[]"]
  obtain cs where
    loop: "splitLoop sample_env (basename_noext ''storage/chunks/meeting-7-converted.wav'') 1 tenth [] 0
             = Some (Inr cs)"
    and starts: "map startTime cs = butlast (0 # tenth_sums)" by auto
  from starts have "length (map startTime cs) = 11" "last (map startTime cs) =
      9007199254740991 / 9007199254740992"
    by (simp_all add: tenth_sums_def)
  then have len: "length cs = 11" and lm: "last (map startTime cs) =
      9007199254740991 / 9007199254740992" by simp_all
  from len have "cs \<noteq> []" by auto
  then have "last (map startTime cs) = startTime (last cs)" by (rule last_map)
  with lm have lst: "startTime (last cs) = 9007199254740991 / 9007199254740992" by simp
  have "mkdir_chunks sample_env = None" by (simp add: sample_env_def)
  with loop have "splitIntoChunks sample_env ''storage/chunks/meeting-7-converted.wav'' 1 tenth init_state
      = Some (Inr cs, emit (Split ''storage/chunks/meeting-7-converted.wav'' 1 tenth) init_state)"
    by (simp add: splitIntoChunks_def Let_def)
  moreover have "0 < tenth" by (simp add: tenth_def)
  ultimately show ?thesis using tenth_facts len lst by auto
qed

text \<open>
  C4, amended. For a total duration \<open>D > 0\<close> and a chunk duration that is a whole number
  \<open>c > 0\<close> of seconds (the repository passes 300 and 600), with \<open>D + c\<close> at most \<open>2^53\<close>,
  \<^verbatim>\<open>splitIntoChunks\<close> returns (it yields an error or a plan, and it yields a plan when the
  directory can be made and every extraction works), and every plan it returns has
  exactly \<open>\<lceil>D / c\<rceil>\<close> entries, with the indices \<open>0, 1, ...\<close> in order, whose windows start
  at 0, end at \<open>D\<close>, are not empty, each start where the one before ends, do not overlap,
  and cover \<open>[0, D)\<close> exactly.
\<close>

theorem splitIntoChunks_plan:
  assumes "0 < D" and "0 < c" and "D + of_nat c \<le> 2 ^ 53"
  shows "(\<exists>r. splitIntoChunks e wav D (of_nat c) st = Some r) \<and>
         (mkdir_chunks e = None \<and> (\<forall>p s d. \<exists>bytes. ffmpeg_extract e p s d = Inr bytes) \<longrightarrow>
            (\<exists>cs st'. splitIntoChunks e wav D (of_nat c) st = Some (Inr cs, st'))) \<and>
         (\<forall>cs st'. splitIntoChunks e wav D (of_nat c) st = Some (Inr cs, st') \<longrightarrow>
            length cs = nat \<lceil>D / of_nat c\<rceil> \<and>
            map index cs = [0..<nat \<lceil>D / of_nat c\<rceil>] \<and>
            startTime (hd cs) = 0 \<and>
            endTime (last cs) = D \<and>
            (\<forall>i. Suc i < length cs \<longrightarrow> startTime (cs ! Suc i) = endTime (cs ! i)) \<and>
            (\<forall>i < length cs. startTime (cs ! i) < endTime (cs ! i)) \<and>
            (\<forall>i j. i < j \<and> j < length cs \<longrightarrow> endTime (cs ! i) \<le> startTime (cs ! j)) \<and>
            (\<Union>c \<in> set cs. {startTime c..<endTime c}) = {0..<D})"
proof (intro conjI allI impI)
  show "\<exists>r. splitIntoChunks e wav D (of_nat c) st = Some r"
    by (rule splitIntoChunks_returns[OF assms(2,3)])
next
  assume "mkdir_chunks e = None \<and> (\<forall>p s d. \<exists>bytes. ffmpeg_extract e p s d = Inr bytes)"
  then show "\<exists>cs st'. splitIntoChunks e wav D (of_nat c) st = Some (Inr cs, st')"
    using splitIntoChunks_succeeds[OF assms(2,3), of e wav st] by blast
next
  fix cs st'
  assume run: "splitIntoChunks e wav D (of_nat c) st = Some (Inr cs, st')"
  from splitIntoChunks_planned[OF assms(2,3) run]
  have len: "length cs = nat \<lceil>D / of_nat c\<rceil>" and pl: "planned 0 D 0 cs" by simp_all
  from assms pl have ne: "cs \<noteq> []" by (auto simp: planned_def)
  from pl have cf: "contiguous_from 0 cs" by (simp add: planned_def)
  show "length cs = nat \<lceil>D / of_nat c\<rceil>" by fact
  from pl len show "map index cs = [0..<nat \<lceil>D / of_nat c\<rceil>]" by (simp add: planned_def)
  from cf ne show "startTime (hd cs) = 0" by (cases cs) auto
  from pl ne show "endTime (last cs) = D" by (simp add: planned_def)
  from cf ne pl show "(\<Union>c \<in> set cs. {startTime c..<endTime c}) = {0..<D}"
    using contiguous_from_cover[OF cf ne] by (simp add: planned_def)
  { fix i assume "Suc i < length cs"
    with cf show "startTime (cs ! Suc i) = endTime (cs ! i)" by (rule contiguous_from_nth_Suc) }
  { fix i assume "i < length cs"
    with cf show "startTime (cs ! i) < endTime (cs ! i)" by (rule contiguous_from_nth_lt) }
  { fix i j assume "i < j \<and> j < length cs"
    with cf show "endTime (cs ! i) \<le> startTime (cs ! j)" using contiguous_from_order by blast }
qed


theorem splitIntoChunks_plan_witness:
  "(0::rat) < 1800 \<and> (0::nat) < 600 \<and> (1800::rat) + of_nat 600 \<le> 2 ^ 53 \<and>
   (\<exists>cs st'. splitIntoChunks sample_env ''storage/chunks/meeting-7-converted.wav'' 1800 (of_nat 600)
                 init_state = Some (Inr cs, st') \<and>
              length cs = 3 \<and> map index cs = [0, 1, 2] \<and>
              startTime (hd cs) = 0 \<and> endTime (last cs) = 1800)"
proof -
  let ?run = "splitIntoChunks sample_env ''storage/chunks/meeting-7-converted.wav'' 1800 (of_nat 600)
                init_state"
  have h: "(0::rat) < 1800" "(0::nat) < 600" "(1800::rat) + of_nat 600 \<le> 2 ^ 53" by simp_all
  note plan = splitIntoChunks_plan[OF h, of sample_env
      "''storage/chunks/meeting-7-converted.wav''" init_state]
  have "mkdir_chunks sample_env = None \<and>
        (\<forall>p s d. \<exists>bytes. ffmpeg_extract sample_env p s d = Inr bytes)"
    by (simp add: sample_env_def)
  with plan obtain cs st' where run: "?run = Some (Inr cs, st')" by auto
  have three: "nat \<lceil>(1800::rat) / of_nat 600\<rceil> = 3" by simp
  have "[0..<3] = [0, 1, 2]" by (simp add: upt_rec)
  with plan run three have "length cs = 3 \<and> map index cs = [0, 1, 2] \<and>
      startTime (hd cs) = 0 \<and> endTime (last cs) = 1800"
    by auto
  with run h show ?thesis by auto
qed

section \<open>White space normal form\<close>

lemma is_ws_SPACE [simp]: "is_ws SPACE"
  by (simp add: is_ws_def SPACE_def)

lemma trim_rtrim: "trim s = rtrim (dropWhile is_ws s)"
  by (simp add: trim_def rtrim_def)

lemma rtrim_Cons:
  "rtrim (c # s) = (if \<forall>x \<in> set (c # s). is_ws x then [] else c # rtrim s)"
proof (cases "\<forall>x \<in> set s. is_ws x")
  case True
  then have "dropWhile is_ws (rev s @ [c]) = dropWhile is_ws [c]"
    by (intro dropWhile_append2) simp
  moreover from True have "dropWhile is_ws (rev s) = []" by simp
  ultimately show ?thesis using True by (simp add: rtrim_def)
next
  case False
  then obtain x where "x \<in> set (rev s)" "\<not> is_ws x" by auto
  then have "dropWhile is_ws (rev s @ [c]) = dropWhile is_ws (rev s) @ [c]"
    by (rule dropWhile_append1)
  with False show ?thesis by (auto simp: rtrim_def)
qed

lemma rtrim_Nil [simp]: "rtrim [] = []"
  by (simp add: rtrim_def)

lemma rtrim_all_ws: "\<forall>x \<in> set s. is_ws x \<Longrightarrow> rtrim s = []"
  by (simp add: rtrim_def)

lemma rtrim_word_append:
  assumes "\<forall>c \<in> set w. \<not> is_ws c" "w \<noteq> []"
  shows "rtrim (w @ r) = w @ rtrim r"
  using assms
proof (induction w)
  case Nil
  then show ?case by simp
next
  case (Cons a w)
  show ?case
  proof (cases "w = []")
    case True
    with Cons.prems show ?thesis by (simp add: rtrim_Cons)
  next
    case False
    with Cons show ?thesis by (simp add: rtrim_Cons)
  qed
qed

lemma ltrim_rtrim: "dropWhile is_ws (rtrim s) = rtrim (dropWhile is_ws s)"
proof (induction s)
  case Nil
  then show ?case by simp
next
  case (Cons c s)
  show ?case
  proof (cases "is_ws c")
    case True
    show ?thesis
    proof (cases "\<forall>x \<in> set s. is_ws x")
      case True
      then have "dropWhile is_ws s = []" by simp
      then have "rtrim (dropWhile is_ws s) = []" by (simp only: rtrim_Nil)
      with True \<open>is_ws c\<close> show ?thesis by (simp add: rtrim_Cons)
    next
      case False
      then have "rtrim (c # s) = c # rtrim s" by (simp add: rtrim_Cons)
      with \<open>is_ws c\<close> Cons show ?thesis by simp
    qed
  next
    case False
    then show ?thesis by (simp add: rtrim_Cons)
  qed
qed

lemma replace_ws_word_append:
  "\<forall>c \<in> set w. \<not> is_ws c \<Longrightarrow> replace_ws (w @ s) = w @ replace_ws s"
  by (induction w) auto

lemma join_with_space_Cons:
  "join_with_space (w # ws) = (if ws = [] then w else w @ SPACE # join_with_space ws)"
  by (cases ws) auto

lemma ws_words_Nil_iff: "ws_words s = [] \<longleftrightarrow> dropWhile is_ws s = []"
  by (subst ws_words.simps) (simp add: Let_def)

lemma ws_words_ltrim: "ws_words (dropWhile is_ws s) = ws_words s"
  by (subst ws_words.simps, subst (2) ws_words.simps) simp

text \<open>Normal form of a string that does not start with white space.\<close>

lemma replace_ws_rtrim:
  "s = [] \<or> \<not> is_ws (hd s) \<Longrightarrow> replace_ws (rtrim s) = join_with_space (ws_words s)"
proof (induction s rule: length_induct)
  case (1 s)
  show ?case
  proof (cases "s = []")
    case True
    then have "ws_words s = []" by (simp add: ws_words_Nil_iff)
    with True show ?thesis by simp
  next
    case False
    with 1(2) have nws: "\<not> is_ws (hd s)" by simp
    with False have lt: "dropWhile is_ws s = s" by (cases s) auto
    let ?w = "takeWhile (\<lambda>c. \<not> is_ws c) s"
    let ?r = "dropWhile (\<lambda>c. \<not> is_ws c) s"
    have s: "s = ?w @ ?r" by simp
    from False nws have wne: "?w \<noteq> []" by (cases s) auto
    have wfree: "\<forall>c \<in> set ?w. \<not> is_ws c" by (auto dest: set_takeWhileD)
    have words: "ws_words s = ?w # ws_words ?r"
      using False lt by (subst ws_words.simps) (simp add: Let_def)
    have "rtrim s = ?w @ rtrim ?r"
      using rtrim_word_append[OF wfree wne, of ?r] by simp
    then have step: "replace_ws (rtrim s) = ?w @ replace_ws (rtrim ?r)"
      by (simp add: replace_ws_word_append[OF wfree])
    show ?thesis
    proof (cases "\<forall>x \<in> set ?r. is_ws x")
      case True
      then have "ws_words ?r = []" by (simp only: ws_words_Nil_iff dropWhile_eq_Nil_conv)
      moreover have "rtrim ?r = []" by (rule rtrim_all_ws[OF True])
      ultimately show ?thesis using step words by simp
    next
      case False
      then have rne: "?r \<noteq> []" by (auto simp del: dropWhile_eq_Nil_conv)
      define c where "c = hd ?r"
      define r' where "r' = tl ?r"
      have r: "?r = c # r'" by (simp only: c_def r'_def list.collapse[OF rne])
      have "is_ws c" using hd_dropWhile[OF rne] by (simp add: c_def)
      have "set ?r = insert c (set r')" by (subst r) simp
      with False \<open>is_ws c\<close> have nall: "\<not> (\<forall>x \<in> set r'. is_ws x)" by auto
      let ?t = "dropWhile is_ws r'"
      have len: "length ?t < length s"
      proof -
        have "length ?t \<le> length r'" by (rule length_dropWhile_le)
        moreover have "length ?r \<le> length s" by (rule length_dropWhile_le)
        moreover have "length ?r = Suc (length r')" by (subst r) simp
        ultimately show ?thesis by simp
      qed
      have tne: "?t \<noteq> []" using nall by simp
      have "?t = [] \<or> \<not> is_ws (hd ?t)" using hd_dropWhile[OF tne] by simp
      with 1(1) len have IH: "replace_ws (rtrim ?t) = join_with_space (ws_words ?t)" by blast
      have "replace_ws (rtrim (c # r')) = SPACE # replace_ws (dropWhile is_ws (rtrim r'))"
        using \<open>is_ws c\<close> nall by (simp add: rtrim_Cons)
      also have "\<dots> = SPACE # join_with_space (ws_words ?t)"
        by (simp add: ltrim_rtrim IH)
      finally have "replace_ws (rtrim (c # r')) = SPACE # join_with_space (ws_words ?t)" .
      then have rr: "replace_ws (rtrim ?r) = SPACE # join_with_space (ws_words ?t)"
        by (subst r)
      have "ws_words (c # r') = ws_words ?t"
        using ws_words_ltrim[of "c # r'"] \<open>is_ws c\<close> by simp
      then have wr: "ws_words ?r = ws_words ?t" by (subst r)
      have "ws_words ?t \<noteq> []" using tne by (simp add: ws_words_Nil_iff)
      with step rr words wr show ?thesis by (simp add: join_with_space_Cons)
    qed
  qed
qed

lemma replace_ws_trim: "replace_ws (trim s) = join_with_space (ws_words s)"
proof -
  let ?s = "dropWhile is_ws s"
  have "?s = [] \<or> \<not> is_ws (hd ?s)" using hd_dropWhile[of is_ws s] by auto
  from replace_ws_rtrim[OF this] show ?thesis by (simp add: trim_rtrim ws_words_ltrim)
qed

lemma mergeLoop_eq:
  "mergeLoop rs (ft, segs, d) =
     (ft @ texts_with_space rs, segs @ shifted_segments rs, foldl max d (map (endTime \<circ> chunk) rs))"
  by (induction rs arbitrary: ft segs d) (simp_all add: texts_with_space_def shifted_segments_def)

lemma merge_text: "t_text (mergeTranscripts rs) = replace_ws (trim (texts_with_space rs))"
  by (simp add: mergeTranscripts_def mergeLoop_eq)

lemma merge_segments: "segments (mergeTranscripts rs) = shifted_segments rs"
  by (simp add: mergeTranscripts_def mergeLoop_eq)

lemma merge_duration:
  "t_duration (mergeTranscripts rs) = foldl max 0 (map (endTime \<circ> chunk) rs)"
  by (simp add: mergeTranscripts_def mergeLoop_eq)

lemma merge_language:
  "language (mergeTranscripts rs) =
     (case rs of [] \<Rightarrow> ''en''
      | r # _ \<Rightarrow> if language (transcription r) = [] then ''en'' else language (transcription r))"
  by (simp add: mergeTranscripts_def mergeLoop_eq)

lemma foldl_max_ge:
  fixes d :: rat
  shows "d \<le> foldl max d xs \<and> (\<forall>x \<in> set xs. x \<le> foldl max d xs)"
proof (induction xs arbitrary: d)
  case Nil
  then show ?case by simp
next
  case (Cons a xs)
  from Cons[of "max d a"] show ?case by auto
qed


lemma foldl_max_assoc:
  fixes d :: rat
  shows "foldl max d (xs @ ys) = foldl max (foldl max d xs) ys"
  by simp


lemma ws_words_unfold:
  "dropWhile is_ws s \<noteq> [] \<Longrightarrow>
   ws_words s = takeWhile (\<lambda>c. \<not> is_ws c) (dropWhile is_ws s)
                # ws_words (dropWhile (\<lambda>c. \<not> is_ws c) (dropWhile is_ws s))"
  by (subst ws_words.simps) (simp add: Let_def)

lemma ws_words_all_ws: "\<forall>x \<in> set s. is_ws x \<Longrightarrow> ws_words s = []"
  by (simp only: ws_words_Nil_iff dropWhile_eq_Nil_conv)

lemma ws_words_append:
  "a = [] \<or> b = [] \<or> is_ws (last a) \<or> is_ws (hd b) \<Longrightarrow>
   ws_words (a @ b) = ws_words a @ ws_words b"
proof (induction a rule: length_induct)
  case (1 a)
  let ?a' = "dropWhile is_ws a"
  show ?case
  proof (cases "\<forall>x \<in> set a. is_ws x")
    case True
    have "dropWhile is_ws (a @ b) = dropWhile is_ws b"
      by (rule dropWhile_append2) (use True in blast)
    then have "ws_words (a @ b) = ws_words b"
      using ws_words_ltrim[of "a @ b"] ws_words_ltrim[of b] by simp
    with ws_words_all_ws[OF True] show ?thesis by simp
  next
    case False
    then obtain x where x: "x \<in> set a" "\<not> is_ws x" by auto
    then have lab: "dropWhile is_ws (a @ b) = ?a' @ b" by (rule dropWhile_append1)
    from False have a'ne: "?a' \<noteq> []" by (simp only: dropWhile_eq_Nil_conv) simp
    have a'neb: "?a' @ b \<noteq> []" using a'ne by simp
    let ?w = "takeWhile (\<lambda>c. \<not> is_ws c) ?a'"
    let ?r = "dropWhile (\<lambda>c. \<not> is_ws c) ?a'"
    have wa: "ws_words a = ?w # ws_words ?r" by (rule ws_words_unfold[OF a'ne])
    have wab: "ws_words (a @ b) = takeWhile (\<lambda>c. \<not> is_ws c) (?a' @ b)
                # ws_words (dropWhile (\<lambda>c. \<not> is_ws c) (?a' @ b))"
    proof -
      have "dropWhile is_ws (a @ b) \<noteq> []" by (subst lab) (rule a'neb)
      from ws_words_unfold[OF this] show ?thesis by (simp only: lab)
    qed
    have lasta: "last ?a' = last a"
    proof -
      have "a = takeWhile is_ws a @ ?a'" by simp
      then have "last a = last (takeWhile is_ws a @ ?a')" by simp
      also have "\<dots> = last ?a'" using a'ne by (rule last_appendR)
      finally show ?thesis by simp
    qed
    show ?thesis
    proof (cases "\<forall>x \<in> set ?a'. \<not> is_ws x")
      case True
      then have w: "?w = ?a'" and r: "?r = []" by simp_all
      from True a'ne have "\<not> is_ws (last ?a')" using last_in_set[OF a'ne] by blast
      with lasta 1(2) x have b: "b = [] \<or> is_ws (hd b)" by auto
      then have tb: "takeWhile (\<lambda>c. \<not> is_ws c) b = []" by (cases b) auto
      from b have db: "dropWhile (\<lambda>c. \<not> is_ws c) b = b" by (cases b) auto
      have "takeWhile (\<lambda>c. \<not> is_ws c) (?a' @ b) = ?a'"
        using takeWhile_append2[of ?a' "\<lambda>c. \<not> is_ws c" b] True tb by simp
      moreover have "dropWhile (\<lambda>c. \<not> is_ws c) (?a' @ b) = b"
        using dropWhile_append2[of ?a' "\<lambda>c. \<not> is_ws c" b] True db by simp
      moreover have "ws_words [] = []" by (rule ws_words_all_ws) simp
      ultimately show ?thesis using wa wab w r by simp
    next
      case False
      then obtain y where y: "y \<in> set ?a'" "\<not> \<not> is_ws y" by auto
      have t: "takeWhile (\<lambda>c. \<not> is_ws c) (?a' @ b) = ?w" using y by (rule takeWhile_append1)
      have d: "dropWhile (\<lambda>c. \<not> is_ws c) (?a' @ b) = ?r @ b" using y by (rule dropWhile_append1)
      from False have rne: "?r \<noteq> []" by (simp only: dropWhile_eq_Nil_conv) simp
      have lastr: "last ?r = last ?a'"
      proof -
        have "?a' = ?w @ ?r" by simp
        then have "last ?a' = last (?w @ ?r)" by simp
        also have "\<dots> = last ?r" using rne by (rule last_appendR)
        finally show ?thesis by simp
      qed
      have len: "length ?r < length a"
        using length_dropWhile_not_ws[OF a'ne] .
      from 1(2) x rne lastr lasta have "?r = [] \<or> b = [] \<or> is_ws (last ?r) \<or> is_ws (hd b)"
        by auto
      with 1(1) len have "ws_words (?r @ b) = ws_words ?r @ ws_words b" by blast
      with wa wab t d show ?thesis by simp
    qed
  qed
qed

lemma ws_words_word:
  assumes "w \<noteq> []" "\<forall>c \<in> set w. \<not> is_ws c"
  shows "ws_words w = [w]"
proof -
  from assms have l: "dropWhile is_ws w = w" by (cases w) auto
  have e: "ws_words [] = []" by (rule ws_words_all_ws) simp
  have d: "dropWhile (\<lambda>c. \<not> is_ws c) w = []" using assms by simp
  have t: "takeWhile (\<lambda>c. \<not> is_ws c) w = w" using assms by simp
  have "dropWhile is_ws w \<noteq> []" by (subst l) (rule assms(1))
  from ws_words_unfold[OF this] show ?thesis by (simp only: l t d e)
qed

lemma ws_words_Cons_ws: "is_ws c \<Longrightarrow> ws_words (c # s) = ws_words s"
  using ws_words_ltrim[of "c # s"] ws_words_ltrim[of s] by simp

lemma ws_words_join:
  "\<forall>w \<in> set ws. w \<noteq> [] \<and> (\<forall>c \<in> set w. \<not> is_ws c) \<Longrightarrow> ws_words (join_with_space ws) = ws"
proof (induction ws)
  case Nil
  show ?case using ws_words_all_ws[of "[]"] by simp
next
  case (Cons w ws)
  show ?case
  proof (cases "ws = []")
    case True
    with Cons.prems show ?thesis by (simp add: ws_words_word)
  next
    case False
    have "ws_words (w @ SPACE # join_with_space ws) = ws_words w @ ws_words (SPACE # join_with_space ws)"
      by (rule ws_words_append) simp
    with False Cons show ?thesis
      by (simp add: join_with_space_Cons ws_words_word ws_words_Cons_ws)
  qed
qed

lemma takeWhile_hd_ne: "xs \<noteq> [] \<Longrightarrow> \<not> P (hd xs) \<Longrightarrow> takeWhile (\<lambda>c. \<not> P c) xs \<noteq> []"
  by (cases xs) auto

lemma ws_words_clean: "\<forall>w \<in> set (ws_words s). w \<noteq> [] \<and> (\<forall>c \<in> set w. \<not> is_ws c)"
proof (induction s rule: ws_words.induct)
  case (1 s)
  show ?case
  proof (cases "dropWhile is_ws s = []")
    case True
    then have "ws_words s = []" by (simp only: ws_words_Nil_iff)
    then show ?thesis by simp
  next
    case False
    let ?a' = "dropWhile is_ws s"
    let ?w = "takeWhile (\<lambda>c. \<not> is_ws c) ?a'"
    let ?r = "dropWhile (\<lambda>c. \<not> is_ws c) ?a'"
    from False have "\<not> is_ws (hd ?a')" by (rule hd_dropWhile)
    with False have wne: "?w \<noteq> []" by (rule takeWhile_hd_ne)
    have wfree: "\<forall>c \<in> set ?w. \<not> is_ws c" by (auto dest: set_takeWhileD)
    have IH: "\<forall>w \<in> set (ws_words ?r). w \<noteq> [] \<and> (\<forall>c \<in> set w. \<not> is_ws c)"
      by (rule 1[OF refl False])
    have u: "ws_words s = ?w # ws_words ?r" by (rule ws_words_unfold[OF False])
    show ?thesis
    proof
      fix w
      assume "w \<in> set (ws_words s)"
      then have "w \<in> set (?w # ws_words ?r)" by (simp only: u)
      then have "w = ?w \<or> w \<in> set (ws_words ?r)" by (simp only: list.set insert_iff)
      then show "w \<noteq> [] \<and> (\<forall>c \<in> set w. \<not> is_ws c)"
      proof
        assume e: "w = ?w"
        show ?thesis unfolding e using wne wfree by (rule conjI)
      next
        assume "w \<in> set (ws_words ?r)"
        with IH show ?thesis by (rule bspec)
      qed
    qed
  qed
qed

lemma ws_words_normal: "ws_words (replace_ws (trim s)) = ws_words s"
  using ws_words_join[OF ws_words_clean[of s]] by (simp only: replace_ws_trim)

lemma ws_words_texts:
  "ws_words (texts_with_space rs) = concat (map (\<lambda>r. ws_words (t_text (transcription r))) rs)"
proof (induction rs)
  case Nil
  show ?case using ws_words_all_ws[of "[]"] by (simp add: texts_with_space_def)
next
  case (Cons r rs)
  have "ws_words ((t_text (transcription r) @ [SPACE]) @ texts_with_space rs)
        = ws_words (t_text (transcription r) @ [SPACE]) @ ws_words (texts_with_space rs)"
    by (rule ws_words_append) simp
  moreover have "ws_words (t_text (transcription r) @ [SPACE])
        = ws_words (t_text (transcription r)) @ ws_words [SPACE]"
    by (rule ws_words_append) simp
  moreover have "ws_words [SPACE] = []" by (rule ws_words_all_ws) simp
  ultimately show ?case using Cons by (simp add: texts_with_space_def)
qed


section \<open>The merged transcript\<close>






lemma texts_with_space_append:
  "texts_with_space (xs @ ys) = texts_with_space xs @ texts_with_space ys"
  by (simp add: texts_with_space_def)

lemma shifted_segments_append:
  "shifted_segments (xs @ ys) = shifted_segments xs @ shifted_segments ys"
  by (simp add: shifted_segments_def)

lemma adjust_zero: "map (adjust 0) segs = segs"
  by (induction segs) (simp_all add: adjust_def)

lemma merge_intermediate:
  assumes "xs \<noteq> []"
  shows "mergeTranscripts (spec_as_chunk_result (mergeTranscripts xs) # ys) = mergeTranscripts (xs @ ys)"
proof -
  let ?m = "mergeTranscripts xs"
  let ?l = "spec_as_chunk_result ?m # ys"
  have c: "chunk (spec_as_chunk_result ?m) = \<lparr>index = 0, path = [], startTime = 0,
             endTime = t_duration ?m, duration = t_duration ?m, sizeMB = 0, filename = []\<rparr>"
    and t: "transcription (spec_as_chunk_result ?m) = ?m"
    by (simp_all add: spec_as_chunk_result_def)
  have words: "ws_words (texts_with_space ?l) = ws_words (texts_with_space (xs @ ys))"
  proof -
    have "ws_words (texts_with_space ?l) = ws_words (t_text ?m) @ ws_words (texts_with_space ys)"
      using ws_words_texts[of ?l] ws_words_texts[of ys] by (simp add: t)
    also have "ws_words (t_text ?m) = ws_words (texts_with_space xs)"
      by (simp only: merge_text ws_words_normal)
    also have "ws_words (texts_with_space xs) @ ws_words (texts_with_space ys)
               = ws_words (texts_with_space (xs @ ys))"
      by (simp add: ws_words_texts)
    finally show ?thesis .
  qed
  have tx: "t_text (mergeTranscripts ?l) = t_text (mergeTranscripts (xs @ ys))"
    by (simp only: merge_text replace_ws_trim words)
  have segs: "segments (mergeTranscripts ?l) = segments (mergeTranscripts (xs @ ys))"
    by (simp add: merge_segments shifted_segments_append)
       (simp add: shifted_segments_def c t adjust_zero merge_segments)
  have dur: "t_duration (mergeTranscripts ?l) = t_duration (mergeTranscripts (xs @ ys))"
  proof -
    have "0 \<le> foldl max 0 (map (endTime \<circ> chunk) xs)" using foldl_max_ge[of 0] by blast
    then show ?thesis by (simp add: merge_duration c max_def)
  qed
  have lang: "language (mergeTranscripts ?l) = language (mergeTranscripts (xs @ ys))"
    using assms by (cases xs) (simp_all add: merge_language spec_as_chunk_result_def)
  from tx lang dur segs show ?thesis by (rule transcription.equality) simp
qed

text \<open>
  C9. Merging is associative over the order of the chunks: for every split point \<open>k\<close>,
  merging the chunks \<open>0..k\<close>, and then merging that transcript with the chunks after \<open>k\<close>,
  gives the same merged transcript (text, segments, language and duration) as merging all
  chunks in one call.
\<close>

theorem mergeTranscripts_associative:
  assumes "k < length rs"
  shows "mergeTranscripts (spec_as_chunk_result (mergeTranscripts (take (Suc k) rs)) # drop (Suc k) rs)
         = mergeTranscripts rs"
proof -
  from assms have "take (Suc k) rs \<noteq> []" by (cases rs) auto
  from merge_intermediate[OF this, of "drop (Suc k) rs"] show ?thesis by simp
qed

theorem mergeTranscripts_associative_witness:
  "(0::nat) < length two_results \<and>
   mergeTranscripts (spec_as_chunk_result (mergeTranscripts (take (Suc 0) two_results))
                     # drop (Suc 0) two_results) = mergeTranscripts two_results \<and>
   t_text (mergeTranscripts (take (Suc 0) two_results)) = map of_char ''hello world''"
proof -
  have l: "(0::nat) < length two_results" by (simp add: two_results_def)
  have "t_text (mergeTranscripts (take (Suc 0) two_results)) = map of_char ''hello world''"
    by (simp add: two_results_def mergeTranscripts_def trim_def is_ws_def SPACE_def)
  with l mergeTranscripts_associative[OF l] show ?thesis by simp
qed

section \<open>Order of the merged segments\<close>

lemma sample_basename:
  "basename_noext ''storage/chunks/meeting-7-converted.wav'' = ''meeting-7-converted''"
  by (simp add: basename_noext_def basename_def extname_def is_sep_def Let_def)

lemma sample_plan:
  "splitIntoChunks sample_env ''storage/chunks/meeting-7-converted.wav'' 1800 600 init_state
   = Some (Inr [sample_chunk 0 0 600, sample_chunk 1 600 1200, sample_chunk 2 1200 1800],
           emit (Split ''storage/chunks/meeting-7-converted.wav'' 1800 600) init_state)"
  by (simp add: splitIntoChunks_def sample_basename splitLoop.simps sample_env_def Let_def
        sample_chunk_def CHUNK_OVERLAP_SECONDS_def show_nat.simps)

text \<open>
  The claim C7 as it is stated fails on a plan of three chunks: the file of chunk 1 holds
  602 seconds, a segment that starts at its second 601 is stamped 1201, and the first
  segment of chunk 2 is stamped 1200.
\<close>

theorem merged_segments_order_counterexample:
  "splitIntoChunks sample_env ''storage/chunks/meeting-7-converted.wav'' 1800 600 init_state
     = Some (Inr (map chunk overlap_results),
             emit (Split ''storage/chunks/meeting-7-converted.wav'' 1800 600) init_state) \<and>
   list_all well_timed overlap_results \<and>
   map seg_start (segments (mergeTranscripts overlap_results)) = [0, 1201, 1200] \<and>
   \<not> sorted (map seg_start (segments (mergeTranscripts overlap_results)))"
proof -
  have "map chunk overlap_results
        = [sample_chunk 0 0 600, sample_chunk 1 600 1200, sample_chunk 2 1200 1800]"
    by (simp add: overlap_results_def)
  moreover have "list_all well_timed overlap_results"
    by (simp add: overlap_results_def well_timed_def file_duration_def sample_chunk_def
          CHUNK_OVERLAP_SECONDS_def)
  moreover have st: "map seg_start (segments (mergeTranscripts overlap_results)) = [0, 1201, 1200]"
    by (simp add: merge_segments shifted_segments_def overlap_results_def adjust_def sample_chunk_def)
  moreover have "\<not> sorted (map seg_start (segments (mergeTranscripts overlap_results)))"
    by (simp add: st)
  ultimately show ?thesis using sample_plan by simp
qed

lemma sorted_adjust:
  "sorted (map seg_start segs) \<Longrightarrow> sorted (map seg_start (map (adjust c) segs))"
  by (induction segs) (auto simp: adjust_def)

lemma stamps_ge:
  assumes "contiguous_from t (map chunk rs)"
    and "\<forall>r \<in> set rs. \<forall>s \<in> set (segments (transcription r)). 0 \<le> seg_start s"
  shows "\<forall>y \<in> set (shifted_segments rs). t \<le> seg_start y"
proof
  fix y assume "y \<in> set (shifted_segments rs)"
  then obtain r s where r: "r \<in> set rs" and s: "s \<in> set (segments (transcription r))"
    and y: "y = adjust (startTime (chunk r)) s"
    by (auto simp: shifted_segments_def)
  from r have "chunk r \<in> set (map chunk rs)" by simp
  from contiguous_from_start_ge[OF assms(1) this] have "t \<le> startTime (chunk r)" .
  moreover from assms(2) r s have "0 \<le> seg_start s" by blast
  ultimately show "t \<le> seg_start y" by (simp add: y adjust_def)
qed

lemma shifted_sorted:
  assumes "contiguous_from t (map chunk rs)"
    and "\<forall>r \<in> set rs. sorted (map seg_start (segments (transcription r))) \<and>
                        (\<forall>s \<in> set (segments (transcription r)). 0 \<le> seg_start s)"
    and "\<forall>i. Suc i < length rs \<longrightarrow>
           (\<forall>s \<in> set (segments (transcription (rs ! i))).
              seg_start s \<le> endTime (chunk (rs ! i)) - startTime (chunk (rs ! i)))"
  shows "sorted (map seg_start (shifted_segments rs))"
  using assms
proof (induction rs arbitrary: t)
  case Nil
  then show ?case by (simp add: shifted_segments_def)
next
  case (Cons r rs)
  let ?here = "map (adjust (startTime (chunk r))) (segments (transcription r))"
  have split: "shifted_segments (r # rs) = ?here @ shifted_segments rs"
    by (simp add: shifted_segments_def)
  from Cons.prems(1) have cf: "contiguous_from (endTime (chunk r)) (map chunk rs)" by simp
  from Cons.prems(2) have p2: "\<forall>r \<in> set rs. sorted (map seg_start (segments (transcription r))) \<and>
                        (\<forall>s \<in> set (segments (transcription r)). 0 \<le> seg_start s)" by simp
  have p3: "\<forall>i. Suc i < length rs \<longrightarrow>
           (\<forall>s \<in> set (segments (transcription (rs ! i))).
              seg_start s \<le> endTime (chunk (rs ! i)) - startTime (chunk (rs ! i)))"
  proof (intro allI impI)
    fix i assume "Suc i < length rs"
    then have "Suc (Suc i) < length (r # rs)" by simp
    with Cons.prems(3) have "\<forall>s \<in> set (segments (transcription ((r # rs) ! Suc i))).
              seg_start s \<le> endTime (chunk ((r # rs) ! Suc i)) - startTime (chunk ((r # rs) ! Suc i))"
      by blast
    then show "\<forall>s \<in> set (segments (transcription (rs ! i))).
              seg_start s \<le> endTime (chunk (rs ! i)) - startTime (chunk (rs ! i))" by simp
  qed
  have rest: "sorted (map seg_start (shifted_segments rs))" by (rule Cons.IH[OF cf p2 p3])
  from Cons.prems(2) have "sorted (map seg_start (segments (transcription r)))" by simp
  then have here: "sorted (map seg_start ?here)" by (rule sorted_adjust)
  have cross: "seg_start x \<le> seg_start y"
    if x: "x \<in> set ?here" and y: "y \<in> set (shifted_segments rs)" for x y
  proof -
    from y have ne: "rs \<noteq> []" by (auto simp: shifted_segments_def)
    then have "Suc 0 < length (r # rs)" by (cases rs) auto
    with Cons.prems(3) have b: "\<forall>s \<in> set (segments (transcription ((r # rs) ! 0))).
        seg_start s \<le> endTime (chunk ((r # rs) ! 0)) - startTime (chunk ((r # rs) ! 0))" by blast
    from x obtain s where s: "s \<in> set (segments (transcription r))"
      and xs: "x = adjust (startTime (chunk r)) s" by auto
    from b s have "seg_start s \<le> endTime (chunk r) - startTime (chunk r)" by simp
    then have "seg_start x \<le> endTime (chunk r)" by (simp add: xs adjust_def)
    moreover from stamps_ge[OF cf] p2 y have "endTime (chunk r) \<le> seg_start y" by blast
    ultimately show ?thesis by simp
  qed
  from here rest cross show ?case by (auto simp: split sorted_append)
qed

text \<open>
  C7, amended. For chunk results in index order over contiguous windows, whose segments
  are in non-decreasing order of start with starts that are not negative, the segments of
  the merged transcript are in non-decreasing order of start, provided that in every chunk
  but the last no segment starts after the logical duration of the chunk (end time minus
  start time).
\<close>

theorem merged_segments_sorted:
  assumes "contiguous_from t (map chunk rs)"
    and "\<forall>r \<in> set rs. sorted (map seg_start (segments (transcription r))) \<and>
                        (\<forall>s \<in> set (segments (transcription r)). 0 \<le> seg_start s)"
    and "\<forall>i. Suc i < length rs \<longrightarrow>
           (\<forall>s \<in> set (segments (transcription (rs ! i))).
              seg_start s \<le> endTime (chunk (rs ! i)) - startTime (chunk (rs ! i)))"
  shows "sorted (map seg_start (segments (mergeTranscripts rs)))"
  using shifted_sorted[OF assms] by (simp add: merge_segments)

theorem merged_segments_sorted_witness:
  "contiguous_from 0 (map chunk two_results) \<and>
   list_all (\<lambda>r. sorted (map seg_start (segments (transcription r)))) two_results \<and>
   map seg_start (segments (mergeTranscripts two_results)) = [1, 602] \<and>
   sorted (map seg_start (segments (mergeTranscripts two_results)))"
proof -
  have a: "contiguous_from 0 (map chunk two_results)" by (simp add: two_results_def)
  have b: "\<forall>r \<in> set two_results. sorted (map seg_start (segments (transcription r))) \<and>
                        (\<forall>s \<in> set (segments (transcription r)). 0 \<le> seg_start s)"
    by (simp add: two_results_def)
  have c: "\<forall>i. Suc i < length two_results \<longrightarrow>
           (\<forall>s \<in> set (segments (transcription (two_results ! i))).
              seg_start s \<le> endTime (chunk (two_results ! i)) - startTime (chunk (two_results ! i)))"
    by (simp add: two_results_def)
  have d: "map seg_start (segments (mergeTranscripts two_results)) = [1, 602]"
    by (simp add: merge_segments shifted_segments_def two_results_def adjust_def)
  from merged_segments_sorted[OF a b c] a b d show ?thesis by (simp add: list_all_iff)
qed

section \<open>Deadline and initial chunk duration\<close>

lemma char_of_digits:
  "char_of (48::nat) = CHR ''0''" "char_of (49::nat) = CHR ''1''" "char_of (50::nat) = CHR ''2''"
  "char_of (51::nat) = CHR ''3''" "char_of (52::nat) = CHR ''4''" "char_of (53::nat) = CHR ''5''"
  "char_of (54::nat) = CHR ''6''" "char_of (55::nat) = CHR ''7''" "char_of (56::nat) = CHR ''8''"
  "char_of (57::nat) = CHR ''9''"
  by (simp_all add: char_of_def bit_0)

lemma splitIntoChunks_state:
  "splitIntoChunks e w d c st = Some (r, st') \<Longrightarrow> st' = emit (Split w d c) st"
  by (auto simp: splitIntoChunks_def Let_def split: option.splits sum.splits)

lemma MB_less: "MB bytes < of_nat n \<longleftrightarrow> bytes < n * 1048576"
proof -
  have "MB bytes < of_nat n \<longleftrightarrow> (of_nat bytes :: rat) < of_nat n * 1048576"
    by (simp add: MB_def field_simps)
  also have "\<dots> \<longleftrightarrow> (of_nat bytes :: rat) < of_nat (n * 1048576)" by simp
  also have "\<dots> \<longleftrightarrow> bytes < n * 1048576" by (rule of_nat_less_iff)
  finally show ?thesis .
qed

lemma calculateTimeout_bytes:
  assumes "stat_size e audioPath = Inr bytes"
  shows "calculateTimeout e audioPath =
           (if bytes < 10 * 1048576 then 5 * 60 * 1000
            else if bytes < 30 * 1048576 then 10 * 60 * 1000
            else if bytes < 50 * 1048576 then 15 * 60 * 1000
            else if bytes < 80 * 1048576 then 30 * 60 * 1000
            else 45 * 60 * 1000)"
  using MB_less[of bytes 10] MB_less[of bytes 30] MB_less[of bytes 50] MB_less[of bytes 80] assms
  by (simp add: calculateTimeout_def Let_def)

lemma processLargeAudio_chunking:
  assumes "ffprobe e audioPath = Inr (d, bytes)"
    and "processLargeAudio e audioPath mid st = Some (Inr p, st')"
    and "needsChunking p"
  shows "splitIntoChunks e (wavPath p) (p_duration p) (if 50 * 1048576 \<le> bytes then 300 else 600)
           (emit (Convert audioPath (wavPath p)) st) = Some (Inr (chunks p), st')"
proof -
  have c: "(50 \<le> MB bytes) = (50 * 1048576 \<le> bytes)"
    using MB_less[of bytes 50] by auto
  show ?thesis
    using assms
    by (auto simp: processLargeAudio_def Let_def c CHUNK_DURATION_SECONDS_def
        split: sum.splits option.splits if_splits prod.splits)
qed

text \<open>
  C8. The deadline is a function of the size in bytes of the original file, taken before
  anything is converted: below 10 MB five minutes, from 10 MB and below 30 MB ten, from
  30 MB and below 50 MB fifteen, from 50 MB and below 80 MB thirty, from 80 MB forty-five
  (in milliseconds, a megabyte being 1048576 bytes). When \<^verbatim>\<open>processLargeAudio\<close> plans
  chunks, it runs the splitter once, after the conversion, with a chunk duration of 300
  seconds if the original file has 50 MB or more and of 600 seconds otherwise.
\<close>

theorem deadline_and_initial_chunk_duration:
  "(stat_size e audioPath = Inr bytes \<longrightarrow>
      calculateTimeout e audioPath =
        (if bytes < 10 * 1048576 then 5 * 60 * 1000
         else if bytes < 30 * 1048576 then 10 * 60 * 1000
         else if bytes < 50 * 1048576 then 15 * 60 * 1000
         else if bytes < 80 * 1048576 then 30 * 60 * 1000
         else 45 * 60 * 1000)) \<and>
   (ffprobe e fullPath = Inr (d, srcBytes) \<and>
    processLargeAudio e fullPath mid st = Some (Inr p, st') \<and> needsChunking p \<longrightarrow>
      splitIntoChunks e (wavPath p) (p_duration p) (if 50 * 1048576 \<le> srcBytes then 300 else 600)
         (emit (Convert fullPath (wavPath p)) st) = Some (Inr (chunks p), st') \<and>
      trace st' = trace st @ [Convert fullPath (wavPath p),
                              Split (wavPath p) (p_duration p)
                                (if 50 * 1048576 \<le> srcBytes then 300 else 600)])"
proof (intro conjI impI)
  assume "stat_size e audioPath = Inr bytes"
  then show "calculateTimeout e audioPath =
        (if bytes < 10 * 1048576 then 5 * 60 * 1000
         else if bytes < 30 * 1048576 then 10 * 60 * 1000
         else if bytes < 50 * 1048576 then 15 * 60 * 1000
         else if bytes < 80 * 1048576 then 30 * 60 * 1000
         else 45 * 60 * 1000)"
    by (rule calculateTimeout_bytes)
next
  assume a: "ffprobe e fullPath = Inr (d, srcBytes) \<and>
    processLargeAudio e fullPath mid st = Some (Inr p, st') \<and> needsChunking p"
  then have run: "splitIntoChunks e (wavPath p) (p_duration p)
      (if 50 * 1048576 \<le> srcBytes then 300 else 600)
      (emit (Convert fullPath (wavPath p)) st) = Some (Inr (chunks p), st')"
    using processLargeAudio_chunking[of e fullPath d srcBytes mid st p st'] by blast
  then show "splitIntoChunks e (wavPath p) (p_duration p)
      (if 50 * 1048576 \<le> srcBytes then 300 else 600)
      (emit (Convert fullPath (wavPath p)) st) = Some (Inr (chunks p), st')" .
  from splitIntoChunks_state[OF run]
  show "trace st' = trace st @ [Convert fullPath (wavPath p),
          Split (wavPath p) (p_duration p) (if 50 * 1048576 \<le> srcBytes then 300 else 600)]"
    by (simp add: emit_def)
qed

lemma big_run:
  "\<exists>cs. processLargeAudio big_env ''storage/audio/1-7.webm'' 7 init_state =
     Some (Inr \<lparr>needsChunking = True, wavPath = ''storage/chunks/meeting-7-converted.wav'',
                p_duration = 1800, p_sizeMB = 90, chunks = cs\<rparr>,
           emit (Split ''storage/chunks/meeting-7-converted.wav'' 1800 300)
             (emit (Convert ''storage/audio/1-7.webm'' ''storage/chunks/meeting-7-converted.wav'')
                init_state)) \<and> length cs = 6"
  by (simp add: processLargeAudio_def big_env_def sample_env_def MB_def TARGET_SIZE_MB_def
        show_nat.simps char_of_digits splitIntoChunks_def splitLoop.simps Let_def)

theorem deadline_and_initial_chunk_duration_witness:
  "stat_size big_env ''storage/audio/1-7.webm'' = Inr (90 * 1048576) \<and>
   calculateTimeout big_env ''storage/audio/1-7.webm'' = 45 * 60 * 1000 \<and>
   (\<exists>p st'. ffprobe big_env ''storage/audio/1-7.webm'' = Inr (1800, 90 * 1048576) \<and>
      processLargeAudio big_env ''storage/audio/1-7.webm'' 7 init_state = Some (Inr p, st') \<and>
      needsChunking p \<and>
      trace st' = [Convert ''storage/audio/1-7.webm'' ''storage/chunks/meeting-7-converted.wav'',
                   Split ''storage/chunks/meeting-7-converted.wav'' 1800 300])"
proof -
  have s: "stat_size big_env ''storage/audio/1-7.webm'' = Inr (90 * 1048576)"
    and f: "ffprobe big_env ''storage/audio/1-7.webm'' = Inr (1800, 90 * 1048576)"
    by (simp_all add: big_env_def)
  from big_run obtain cs where
    run: "processLargeAudio big_env ''storage/audio/1-7.webm'' 7 init_state =
     Some (Inr \<lparr>needsChunking = True, wavPath = ''storage/chunks/meeting-7-converted.wav'',
                p_duration = 1800, p_sizeMB = 90, chunks = cs\<rparr>,
           emit (Split ''storage/chunks/meeting-7-converted.wav'' 1800 300)
             (emit (Convert ''storage/audio/1-7.webm'' ''storage/chunks/meeting-7-converted.wav'')
                init_state))" by blast
  note t = deadline_and_initial_chunk_duration[of big_env "''storage/audio/1-7.webm''"
      "90 * 1048576" "''storage/audio/1-7.webm''" 1800 "90 * 1048576" 7 init_state
      "\<lparr>needsChunking = True, wavPath = ''storage/chunks/meeting-7-converted.wav'',
                p_duration = 1800, p_sizeMB = 90, chunks = cs\<rparr>"
      "emit (Split ''storage/chunks/meeting-7-converted.wav'' 1800 300)
             (emit (Convert ''storage/audio/1-7.webm'' ''storage/chunks/meeting-7-converted.wav'')
                init_state)"]
  from t s have "calculateTimeout big_env ''storage/audio/1-7.webm'' = 45 * 60 * 1000" by simp
  moreover from t f run have "trace (emit (Split ''storage/chunks/meeting-7-converted.wav'' 1800 300)
             (emit (Convert ''storage/audio/1-7.webm'' ''storage/chunks/meeting-7-converted.wav'')
                init_state)) =
      [Convert ''storage/audio/1-7.webm'' ''storage/chunks/meeting-7-converted.wav'',
       Split ''storage/chunks/meeting-7-converted.wav'' 1800 300]"
    by (simp add: init_state_def)
  ultimately show ?thesis using s f run by simp
qed

section \<open>Retries of the chunk transcription driver\<close>

lemma messages_not_payload:
  "RATE_LIMIT_MESSAGE \<noteq> PAYLOAD_TOO_LARGE" "INVALID_KEY_MESSAGE \<noteq> PAYLOAD_TOO_LARGE"
  "INSUFFICIENT_CREDITS_MESSAGE \<noteq> PAYLOAD_TOO_LARGE" "QUOTA_MESSAGE \<noteq> PAYLOAD_TOO_LARGE"
  "BILLING_MESSAGE \<noteq> PAYLOAD_TOO_LARGE" "''Failed to transcribe audio: '' @ m \<noteq> PAYLOAD_TOO_LARGE"
  by (simp_all add: RATE_LIMIT_MESSAGE_def INVALID_KEY_MESSAGE_def INSUFFICIENT_CREDITS_MESSAGE_def
        QUOTA_MESSAGE_def BILLING_MESSAGE_def PAYLOAD_TOO_LARGE_def)

lemma thrown_message_payload_iff:
  "thrown_message err = PAYLOAD_TOO_LARGE \<longleftrightarrow> failure_class_of err = PayloadTooLarge"
  by (simp add: thrown_message_def checkAPIQuotaError_def failure_class_of_def
        RATE_LIMIT_MESSAGE_def INVALID_KEY_MESSAGE_def INSUFFICIENT_CREDITS_MESSAGE_def
        QUOTA_MESSAGE_def BILLING_MESSAGE_def PAYLOAD_TOO_LARGE_def)

lemma transcribeSingleFile_configured:
  "client_configured e \<Longrightarrow>
   transcribeSingleFile e p st =
     (case api e (calls st) (full_path e p) of
        Inr t \<Rightarrow> Inr t
      | Inl err \<Rightarrow> Inl (thrown_message err),
      \<lparr>calls = Suc (calls st), trace = trace st @ [Transcribe p]\<rparr>)"
  by (cases st) (simp add: transcribeSingleFile_def emit_def Let_def split: sum.splits)

lemma transcribeSingleFile_trace:
  "trace (snd (transcribeSingleFile e p st)) = trace st @ [Transcribe p]"
  by (simp add: transcribeSingleFile_def emit_def Let_def split: sum.splits)

lemma retry_events_Suc:
  "retry_events c (Suc n) = retry_events c n @ [Sleep (2 ^ Suc n * 2500), Transcribe (path c)]"
  by (simp add: retry_events_def)

lemma retry_events_5:
  "retry_events c 5 =
     [Sleep 5000, Transcribe (path c), Sleep 10000, Transcribe (path c),
      Sleep 20000, Transcribe (path c), Sleep 40000, Transcribe (path c),
      Sleep 80000, Transcribe (path c)]"
  by (simp add: retry_events_def upt_rec)

text \<open>The loop entered at \<open>attempt\<close> makes the retries \<open>attempt\<close> to \<open>m\<close> for some \<open>m\<close> up to 5.\<close>

lemma retryLoop_trace:
  "1 \<le> attempt \<Longrightarrow> attempt \<le> Suc MAX_RETRIES \<Longrightarrow>
   trace st = tr @ retry_events c (attempt - 1) \<Longrightarrow>
   \<exists>m. attempt - 1 \<le> m \<and> m \<le> MAX_RETRIES \<and> (attempt \<le> MAX_RETRIES \<longrightarrow> attempt \<le> m) \<and>
       trace (snd (retryLoop e c attempt st)) = tr @ retry_events c m"
proof (induction e c attempt st rule: retryLoop.induct)
  case (1 e c attempt st)
  show ?case
  proof (cases "attempt \<le> MAX_RETRIES")
    case False
    with 1(2,3,4) show ?thesis
      by (subst retryLoop.simps) (auto intro!: exI[of _ "attempt - 1"])
  next
    case True
    let ?st1 = "emit (Sleep (2 ^ attempt * 2500)) st"
    obtain r st2 where call: "transcribeSingleFile e (path c) ?st1 = (r, st2)" by force
    from 1(2) have att: "Suc (attempt - 1) = attempt" by simp
    have ev: "retry_events c attempt =
                retry_events c (attempt - 1) @ [Sleep (2 ^ attempt * 2500), Transcribe (path c)]"
      using retry_events_Suc[of c "attempt - 1"] by (simp only: att)
    have tr2: "trace st2 = tr @ retry_events c attempt"
      using transcribeSingleFile_trace[of e "path c" ?st1] call 1(4)
      by (simp add: emit_def ev)
    show ?thesis
    proof (cases r)
      case (Inr t)
      with True call tr2 show ?thesis
        by (subst retryLoop.simps) (auto simp: Let_def intro!: exI[of _ attempt])
    next
      case (Inl msg)
      show ?thesis
      proof (cases "msg = PAYLOAD_TOO_LARGE")
        case True
        with \<open>attempt \<le> MAX_RETRIES\<close> Inl call tr2 show ?thesis
          by (subst retryLoop.simps) (auto simp: Let_def intro!: exI[of _ attempt])
      next
        case False
        have "\<exists>m. Suc attempt - 1 \<le> m \<and> m \<le> MAX_RETRIES \<and>
                (Suc attempt \<le> MAX_RETRIES \<longrightarrow> Suc attempt \<le> m) \<and>
                trace (snd (retryLoop e c (Suc attempt) st2)) = tr @ retry_events c m"
          using True tr2
          by (intro 1(1)[OF True refl refl call[symmetric] Inl False]) simp_all
        then obtain m where m: "attempt \<le> m" "m \<le> MAX_RETRIES"
          "trace (snd (retryLoop e c (Suc attempt) st2)) = tr @ retry_events c m" by auto
        have "retryLoop e c attempt st = retryLoop e c (Suc attempt) st2"
          using True call Inl False by (subst retryLoop.simps) (simp add: Let_def)
        with m show ?thesis by (auto intro!: exI[of _ m])
      qed
    qed
  qed
qed

lemma retryLoop_budget:
  "\<exists>n. 1 \<le> n \<and> n \<le> MAX_RETRIES \<and> trace (snd (retryLoop e c 1 st)) = trace st @ retry_events c n"
  using retryLoop_trace[of 1 st "trace st" c e]
  by (auto simp: retry_events_def MAX_RETRIES_def)


lemma retryLoop_exhausted:
  "client_configured e \<Longrightarrow> 1 \<le> attempt \<Longrightarrow> attempt \<le> Suc MAX_RETRIES \<Longrightarrow>
     trace st = tr @ retry_events c (attempt - 1) \<Longrightarrow>
     (\<And>k. k < Suc MAX_RETRIES - attempt \<Longrightarrow>
        \<exists>err. api e (calls st + k) (full_path e (path c)) = Inl err \<and>
              failure_class_of err \<noteq> PayloadTooLarge) \<Longrightarrow>
     retryLoop e c attempt st =
       (NotRetried, \<lparr>calls = calls st + (Suc MAX_RETRIES - attempt),
                     trace = tr @ retry_events c MAX_RETRIES\<rparr>)"
proof (induction e c attempt st rule: retryLoop.induct)
  case (1 e c attempt st)
  note cfg = 1(2) and lo = 1(3) and hi = 1(4) and tr = 1(5) and fail = 1(6)
  show ?case
  proof (cases "attempt \<le> MAX_RETRIES")
    case False
    with hi have a: "attempt = Suc MAX_RETRIES" by simp
    with tr False show ?thesis
      by (subst retryLoop.simps) (cases st, simp)
  next
    case True
    let ?st1 = "emit (Sleep (2 ^ attempt * 2500)) st"
    from lo have att: "Suc (attempt - 1) = attempt" by simp
    have ev: "retry_events c attempt =
                retry_events c (attempt - 1) @ [Sleep (2 ^ attempt * 2500), Transcribe (path c)]"
      using retry_events_Suc[of c "attempt - 1"] by (simp only: att)
    from True have "0 < Suc MAX_RETRIES - attempt" by simp
    from fail[OF this] obtain err where
      err: "api e (calls st) (full_path e (path c)) = Inl err"
           "failure_class_of err \<noteq> PayloadTooLarge" by auto
    let ?st2 = "\<lparr>calls = Suc (calls st), trace = tr @ retry_events c attempt\<rparr>"
    have call: "transcribeSingleFile e (path c) ?st1 = (Inl (thrown_message err), ?st2)"
      using err(1) tr cfg
      by (simp add: transcribeSingleFile_configured emit_def ev)
    have np: "thrown_message err \<noteq> PAYLOAD_TOO_LARGE"
      using err(2) by (simp add: thrown_message_payload_iff)
    have rest: "\<exists>err. api e (calls ?st2 + k) (full_path e (path c)) = Inl err \<and>
              failure_class_of err \<noteq> PayloadTooLarge"
      if "k < Suc MAX_RETRIES - Suc attempt" for k
    proof -
      from that have "Suc k < Suc MAX_RETRIES - attempt" by simp
      from fail[OF this] show ?thesis by simp
    qed
    have "retryLoop e c (Suc attempt) ?st2 =
            (NotRetried, \<lparr>calls = calls ?st2 + (Suc MAX_RETRIES - Suc attempt),
                          trace = tr @ retry_events c MAX_RETRIES\<rparr>)"
      using True
      by (intro 1(1)[OF True refl refl call[symmetric] refl np] cfg rest) simp_all
    moreover have "retryLoop e c attempt st = retryLoop e c (Suc attempt) ?st2"
      using True call np by (subst retryLoop.simps) (simp add: Let_def)
    ultimately show ?thesis using True by simp
  qed
qed

lemma exhausted_not_rechunk: "exhausted_message i \<noteq> RECHUNK_NEEDED"
  by (simp add: exhausted_message_def RECHUNK_NEEDED_def)

lemma driveLoop_exhausted:
  assumes cfg: "client_configured e"
    and fail: "\<And>k. k \<le> MAX_RETRIES \<Longrightarrow>
        \<exists>err. api e (calls st + k) (full_path e (path c)) = Inl err \<and>
              failure_class_of err \<noteq> PayloadTooLarge"
  shows "driveLoop e (c # cs) results st =
           (Inl (exhausted_message (index c)),
            \<lparr>calls = calls st + Suc MAX_RETRIES,
             trace = trace st @ Transcribe (path c) # retry_events c MAX_RETRIES\<rparr>)"
proof -
  from fail[of 0] obtain err where
    err: "api e (calls st) (full_path e (path c)) = Inl err"
         "failure_class_of err \<noteq> PayloadTooLarge" by auto
  let ?st1 = "\<lparr>calls = Suc (calls st), trace = trace st @ [Transcribe (path c)]\<rparr>"
  have call: "transcribeSingleFile e (path c) st = (Inl (thrown_message err), ?st1)"
    using err(1) cfg by (simp add: transcribeSingleFile_configured)
  have np: "thrown_message err \<noteq> PAYLOAD_TOO_LARGE"
    using err(2) by (simp add: thrown_message_payload_iff)
  have rest: "\<exists>err. api e (calls ?st1 + k) (full_path e (path c)) = Inl err \<and>
              failure_class_of err \<noteq> PayloadTooLarge"
    if "k < Suc MAX_RETRIES - 1" for k
  proof -
    from that have "Suc k \<le> MAX_RETRIES" by simp
    from fail[OF this] show ?thesis by simp
  qed
  have "retryLoop e c 1 ?st1 =
          (NotRetried, \<lparr>calls = calls ?st1 + (Suc MAX_RETRIES - 1),
                        trace = (trace st @ [Transcribe (path c)]) @ retry_events c MAX_RETRIES\<rparr>)"
    by (rule retryLoop_exhausted[OF cfg _ _ _ rest]) (simp_all add: retry_events_def)
  with call np show ?thesis by simp
qed

lemma retry_events_head_Suc:
  "\<exists>more. retry_events c (Suc m) = [Sleep 5000, Transcribe (path c)] @ more"
proof (induction m)
  case 0
  show ?case by (simp add: retry_events_def)
next
  case (Suc m)
  then obtain more where "retry_events c (Suc m) = [Sleep 5000, Transcribe (path c)] @ more" by blast
  then have "retry_events c (Suc (Suc m)) = [Sleep 5000, Transcribe (path c)] @
      (more @ [Sleep (2 ^ Suc (Suc m) * 2500), Transcribe (path c)])"
    by (simp only: retry_events_Suc[of c "Suc m"] append_assoc)
  then show ?case by blast
qed

lemma retry_events_head:
  "1 \<le> n \<Longrightarrow> \<exists>more. retry_events c n = [Sleep 5000, Transcribe (path c)] @ more"
  using retry_events_head_Suc[of c "n - 1"] by simp

lemma driveLoop_trace_grows:
  "\<exists>rest. trace (snd (driveLoop e cs results st)) = trace st @ rest"
proof (induction cs arbitrary: results st)
  case Nil
  then show ?case by simp
next
  case (Cons c cs)
  obtain r st1 where call: "transcribeSingleFile e (path c) st = (r, st1)" by force
  then have t1: "trace st1 = trace st @ [Transcribe (path c)]"
    using transcribeSingleFile_trace[of e "path c" st] by simp
  show ?case
  proof (cases r)
    case (Inr t)
    from Cons[of "results @ [\<lparr>chunk = c, transcription = t\<rparr>]" st1] call Inr t1
    show ?thesis by auto
  next
    case (Inl msg)
    show ?thesis
    proof (cases "msg = PAYLOAD_TOO_LARGE")
      case True
      with call Inl t1 show ?thesis by simp
    next
      case False
      obtain out st2 where retry: "retryLoop e c 1 st1 = (out, st2)" by force
      from retryLoop_budget[of e c st1] retry t1 obtain n where
        t2: "trace st2 = trace st @ [Transcribe (path c)] @ retry_events c n" by auto
      show ?thesis
      proof (cases out)
        case (Retried t)
        from Cons[of "results @ [\<lparr>chunk = c, transcription = t\<rparr>]" st2] call Inl False retry Retried t2
        show ?thesis by auto
      next
        case RechunkSignal
        with call Inl False retry t2 show ?thesis by simp
      next
        case NotRetried
        with call Inl False retry t2 show ?thesis by simp
      qed
    qed
  qed
qed

lemma driveLoop_retries:
  assumes "fst (transcribeSingleFile e (path c) st) = Inl msg" "msg \<noteq> PAYLOAD_TOO_LARGE"
  shows "\<exists>rest. trace (snd (driveLoop e (c # cs) results st)) =
           trace st @ [Transcribe (path c), Sleep 5000, Transcribe (path c)] @ rest"
proof -
  obtain st1 where call: "transcribeSingleFile e (path c) st = (Inl msg, st1)"
    using assms(1) by (cases "transcribeSingleFile e (path c) st") auto
  then have t1: "trace st1 = trace st @ [Transcribe (path c)]"
    using transcribeSingleFile_trace[of e "path c" st] by simp
  obtain out st2 where retry: "retryLoop e c 1 st1 = (out, st2)" by force
  from retryLoop_budget[of e c st1] retry obtain n where
    n: "1 \<le> n" and "trace st2 = trace st1 @ retry_events c n" by auto
  with retry_events_head[OF n, of c] t1 obtain more where
    t2: "trace st2 = trace st @ [Transcribe (path c), Sleep 5000, Transcribe (path c)] @ more"
    by auto
  show ?thesis
  proof (cases out)
    case (Retried t)
    from driveLoop_trace_grows[of e cs "results @ [\<lparr>chunk = c, transcription = t\<rparr>]" st2]
    obtain rest where "trace (snd (driveLoop e cs (results @ [\<lparr>chunk = c, transcription = t\<rparr>]) st2))
        = trace st2 @ rest" by auto
    with call assms(2) retry Retried t2 show ?thesis by simp
  next
    case RechunkSignal
    with call assms(2) retry t2 show ?thesis by simp
  next
    case NotRetried
    with call assms(2) retry t2 show ?thesis by simp
  qed
qed

lemma chunkingPath_propagates:
  assumes "processLargeAudio e full mid st = Some (Inr p, st1)" "needsChunking p"
    and "transcribeChunks e (chunks p) st1 = (Inl msg, st2)" "msg \<noteq> RECHUNK_NEEDED"
  shows "chunkingPath e full mid st = Some (Inl msg, st2)"
  using assms by (simp add: chunkingPath_def)


lemma sample_processed:
  "processLargeAudio (sample_env\<lparr>api := f\<rparr>) ''storage/audio/1-7.webm'' 7 init_state =
     Some (Inr \<lparr>needsChunking = True, wavPath = ''storage/chunks/meeting-7-converted.wav'',
                p_duration = 1800, p_sizeMB = 40,
                chunks = [sample_chunk 0 0 600, sample_chunk 1 600 1200, sample_chunk 2 1200 1800]\<rparr>,
           \<lparr>calls = 0,
            trace = [Convert ''storage/audio/1-7.webm'' ''storage/chunks/meeting-7-converted.wav'',
                     Split ''storage/chunks/meeting-7-converted.wav'' 1800 600]\<rparr>)"
  by (simp add: processLargeAudio_def sample_env_def MB_def TARGET_SIZE_MB_def init_state_def
        CHUNK_DURATION_SECONDS_def CHUNK_OVERLAP_SECONDS_def emit_def sample_chunk_def
        show_nat.simps char_of_digits splitIntoChunks_def splitLoop.simps Let_def
        basename_noext_def basename_def extname_def is_sep_def)

lemma sample_chunk_path:
  "path (sample_chunk 0 0 600) = ''storage/chunks/meeting-7-converted_chunk0.wav''"
  by (simp add: sample_chunk_def show_nat.simps char_of_digits)

text \<open>
  C5. A chunk whose call fails with anything but \<^verbatim>\<open>PAYLOAD_TOO_LARGE\<close> is retried at most
  \<^verbatim>\<open>MAX_RETRIES\<close> = 5 times, each retry \<open>k\<close> after a sleep of \<open>2^k * 2500\<close> milliseconds (5, 10,
  20, 40 and 80 seconds). When the first call and all five retries fail with a class
  other than payload-too-large, the drive fails, after exactly those calls and sleeps,
  with the message that names the index of the chunk; and \<^verbatim>\<open>transcribeWithRetry\<close> hands that
  failure on as it is, in the state in which the drive ended: no re-plan and no further
  call.
\<close>

theorem retry_budget_and_exhaustion:
  "(\<exists>n. n \<le> 5 \<and> trace (snd (retryLoop e c 1 st)) = trace st @ retry_events c n) \<and>
   retry_events c 5 =
     [Sleep 5000, Transcribe (path c), Sleep 10000, Transcribe (path c),
      Sleep 20000, Transcribe (path c), Sleep 40000, Transcribe (path c),
      Sleep 80000, Transcribe (path c)] \<and>
   (client_configured e \<and>
    (\<forall>k \<le> 5. \<exists>err. api e (calls st + k) (full_path e (path c)) = Inl err \<and>
                     failure_class_of err \<noteq> PayloadTooLarge) \<longrightarrow>
      driveLoop e (c # cs) results st =
        (Inl (exhausted_message (index c)),
         \<lparr>calls = calls st + 6, trace = trace st @ Transcribe (path c) # retry_events c 5\<rparr>)) \<and>
   (processLargeAudio e full mid st0 = Some (Inr p, st1) \<and> needsChunking p \<and>
    transcribeChunks e (chunks p) st1 = (Inl (exhausted_message i), st2) \<longrightarrow>
      chunkingPath e full mid st0 = Some (Inl (exhausted_message i), st2))"
proof (intro conjI impI)
  show "\<exists>n. n \<le> 5 \<and> trace (snd (retryLoop e c 1 st)) = trace st @ retry_events c n"
    using retryLoop_budget[of e c st] by (auto simp: MAX_RETRIES_def)
  show "retry_events c 5 =
     [Sleep 5000, Transcribe (path c), Sleep 10000, Transcribe (path c),
      Sleep 20000, Transcribe (path c), Sleep 40000, Transcribe (path c),
      Sleep 80000, Transcribe (path c)]"
    by (rule retry_events_5)
next
  assume a: "client_configured e \<and>
    (\<forall>k \<le> 5. \<exists>err. api e (calls st + k) (full_path e (path c)) = Inl err \<and>
                     failure_class_of err \<noteq> PayloadTooLarge)"
  then have cfg: "client_configured e" by simp
  have fail: "\<exists>err. api e (calls st + k) (full_path e (path c)) = Inl err \<and>
              failure_class_of err \<noteq> PayloadTooLarge" if "k \<le> MAX_RETRIES" for k
    using a that by (simp add: MAX_RETRIES_def)
  from driveLoop_exhausted[OF cfg fail, of cs results]
  show "driveLoop e (c # cs) results st =
        (Inl (exhausted_message (index c)),
         \<lparr>calls = calls st + 6, trace = trace st @ Transcribe (path c) # retry_events c 5\<rparr>)"
    by (simp add: MAX_RETRIES_def)
next
  assume "processLargeAudio e full mid st0 = Some (Inr p, st1) \<and> needsChunking p \<and>
    transcribeChunks e (chunks p) st1 = (Inl (exhausted_message i), st2)"
  then show "chunkingPath e full mid st0 = Some (Inl (exhausted_message i), st2)"
    using chunkingPath_propagates[of e full mid st0 p st1 "exhausted_message i" st2]
      exhausted_not_rechunk[of i] by blast
qed

lemma connection_error_class: "failure_class_of connection_error = Unknown"
  by (simp add: failure_class_of_def connection_error_def)


theorem retry_budget_and_exhaustion_witness:
  "client_configured (always_failing connection_error) \<and>
   failure_class_of connection_error = Unknown \<and>
   chunkingPath (always_failing connection_error) ''storage/audio/1-7.webm'' 7 init_state =
     Some (Inl (exhausted_message 0),
           \<lparr>calls = 6,
            trace = [Convert ''storage/audio/1-7.webm'' ''storage/chunks/meeting-7-converted.wav'',
                     Split ''storage/chunks/meeting-7-converted.wav'' 1800 600,
                     Transcribe ''storage/chunks/meeting-7-converted_chunk0.wav'',
                     Sleep 5000, Transcribe ''storage/chunks/meeting-7-converted_chunk0.wav'',
                     Sleep 10000, Transcribe ''storage/chunks/meeting-7-converted_chunk0.wav'',
                     Sleep 20000, Transcribe ''storage/chunks/meeting-7-converted_chunk0.wav'',
                     Sleep 40000, Transcribe ''storage/chunks/meeting-7-converted_chunk0.wav'',
                     Sleep 80000, Transcribe ''storage/chunks/meeting-7-converted_chunk0.wav'']\<rparr>)"
proof -
  let ?e = "always_failing connection_error"
  let ?c = "sample_chunk 0 0 600"
  let ?cs = "[sample_chunk 1 600 1200, sample_chunk 2 1200 1800]"
  let ?p = "\<lparr>needsChunking = True, wavPath = ''storage/chunks/meeting-7-converted.wav'',
             p_duration = 1800, p_sizeMB = 40, chunks = ?c # ?cs\<rparr>"
  let ?st1 = "\<lparr>calls = 0,
            trace = [Convert ''storage/audio/1-7.webm'' ''storage/chunks/meeting-7-converted.wav'',
                     Split ''storage/chunks/meeting-7-converted.wav'' 1800 600]\<rparr>"
  let ?st2 = "\<lparr>calls = calls ?st1 + 6,
              trace = trace ?st1 @ Transcribe (path ?c) # retry_events ?c 5\<rparr>"
  note t = retry_budget_and_exhaustion[of ?e ?c ?st1 ?cs "[]"
      "''storage/audio/1-7.webm''" 7 init_state ?p ?st1 0 ?st2]
  have cfg: "client_configured ?e" by (simp add: always_failing_def sample_env_def)
  have fails: "\<forall>k \<le> 5. \<exists>err. api ?e (calls ?st1 + k) (full_path ?e (path ?c)) = Inl err \<and>
                     failure_class_of err \<noteq> PayloadTooLarge"
    by (simp add: always_failing_def connection_error_class)
  have run: "processLargeAudio ?e ''storage/audio/1-7.webm'' 7 init_state = Some (Inr ?p, ?st1)"
    unfolding always_failing_def by (rule sample_processed)
  from t cfg fails have drive: "transcribeChunks ?e (chunks ?p) ?st1 = (Inl (exhausted_message 0), ?st2)"
    by (simp add: transcribeChunks_def sample_chunk_def)
  from t run drive have "chunkingPath ?e ''storage/audio/1-7.webm'' 7 init_state =
      Some (Inl (exhausted_message 0), ?st2)" by simp
  moreover from t have "retry_events ?c 5 =
     [Sleep 5000, Transcribe (path ?c), Sleep 10000, Transcribe (path ?c),
      Sleep 20000, Transcribe (path ?c), Sleep 40000, Transcribe (path ?c),
      Sleep 80000, Transcribe (path ?c)]" by blast
  ultimately show ?thesis using cfg connection_error_class by (simp add: sample_chunk_path)
qed


lemma retry_events_prefix:
  "a \<le> b \<Longrightarrow> \<exists>more. retry_events c b = retry_events c a @ more"
proof (induction b)
  case 0
  then show ?case by simp
next
  case (Suc b)
  show ?case
  proof (cases "a = Suc b")
    case True
    then show ?thesis by simp
  next
    case False
    with Suc obtain more where "retry_events c b = retry_events c a @ more" by auto
    then have "retry_events c (Suc b) =
        retry_events c a @ (more @ [Sleep (2 ^ Suc b * 2500), Transcribe (path c)])"
      by (simp only: retry_events_Suc append_assoc)
    then show ?thesis by blast
  qed
qed








end
